theory Spec2Isabelle
  imports Main
begin

section \<open>Python values used by gitignore\_parser.py\<close>

text \<open>
  The module is modelled for a POSIX platform: \<^verbatim>\<open>os.sep\<close> is \<^verbatim>\<open>/\<close> and
  \<^verbatim>\<open>os.altsep\<close> is \<^verbatim>\<open>None\<close>. Python strings are modelled as \<^typ>\<open>string\<close>
  (code points below 256). Every exception that can leave one of the module's functions is
  a value of \<open>error\<close>; a function that can raise returns \<open>error + 'a\<close>.
\<close>

datatype error =
    ValueError    \<comment> \<open>raised by \<^verbatim>\<open>assert_absolute\<close> and by \<^verbatim>\<open>handle_negation\<close>\<close>
  | IndexError    \<comment> \<open>string index out of range\<close>
  | ReError       \<comment> \<open>\<^verbatim>\<open>re.error\<close>, raised by \<^verbatim>\<open>re.search\<close> on a pattern it cannot compile\<close>
  | OSError       \<comment> \<open>a failing \<^verbatim>\<open>Path.is_dir()\<close> or \<^verbatim>\<open>Path.resolve()\<close>\<close>

abbreviation sep :: char where "sep \<equiv> CHR ''/''"
abbreviation backslash :: char where "backslash \<equiv> CHR 0x5C"

subsection \<open>String methods\<close>

text \<open>\<^verbatim>\<open>str.isspace\<close> on one character, for the code points below 256.\<close>

definition is_space :: "char \<Rightarrow> bool" where
  "is_space c \<longleftrightarrow> c \<in> set [CHR 0x09, CHR 0x0A, CHR 0x0B, CHR 0x0C, CHR 0x0D,
     CHR 0x1C, CHR 0x1D, CHR 0x1E, CHR 0x1F, CHR 0x20, CHR 0x85, CHR 0xA0]"

definition rstrip :: "string \<Rightarrow> string" where
  "rstrip s = rev (dropWhile is_space (rev s))"

definition strip :: "string \<Rightarrow> string" where
  "strip s = dropWhile is_space (rstrip s)"

text \<open>\<^verbatim>\<open>line.rstrip('\n')\<close>\<close>

definition rstrip_nl :: "string \<Rightarrow> string" where
  "rstrip_nl s = rev (dropWhile (\<lambda>c. c = CHR 0x0A) (rev s))"

definition startswith :: "string \<Rightarrow> string \<Rightarrow> bool" where
  "startswith s m \<longleftrightarrow> take (length m) s = m"

definition endswith :: "string \<Rightarrow> string \<Rightarrow> bool" where
  "endswith s m \<longleftrightarrow> length m \<le> length s \<and> drop (length s - length m) s = m"

text \<open>\<^verbatim>\<open>s.find(m) > -1\<close>\<close>

fun str_contains :: "string \<Rightarrow> string \<Rightarrow> bool" where
  "str_contains [] m = (m = [])"
| "str_contains (c # cs) m = (startswith (c # cs) m \<or> str_contains cs m)"

text \<open>\<^verbatim>\<open>s[-1]\<close>: the last character, IndexError on the empty string.\<close>

definition py_last :: "string \<Rightarrow> error + char" where
  "py_last s = (if s = [] then Inl IndexError else Inr (last s))"

definition str_lcut :: "string \<Rightarrow> string \<Rightarrow> string \<times> bool" where
  "str_lcut s m = (if startswith s m then (drop (length m) s, True) else (s, False))"

text \<open>\<^verbatim>\<open>s[:-len(match)]\<close> is the empty string when \<^verbatim>\<open>match\<close> is empty.\<close>

definition str_rcut :: "string \<Rightarrow> string \<Rightarrow> string \<times> bool" where
  "str_rcut s m =
     (if endswith s m then ((if m = [] then [] else take (length s - length m) s), True)
      else (s, False))"

text \<open>\<^verbatim>\<open>s.replace('\\', '\\\\')\<close>\<close>

definition double_backslashes :: "string \<Rightarrow> string" where
  "double_backslashes s = concat (map (\<lambda>c. if c = backslash then [backslash, backslash] else [c]) s)"

text \<open>\<^verbatim>\<open>sep.join(parts)\<close>\<close>

fun join :: "string \<Rightarrow> string list \<Rightarrow> string" where
  "join d [] = []"
| "join d [x] = x"
| "join d (x # y # ys) = x @ d @ join d (y # ys)"

text \<open>\<^verbatim>\<open>s.split(c)\<close> for a one-character separator.\<close>

fun split_on :: "char \<Rightarrow> string \<Rightarrow> string list" where
  "split_on c [] = [[]]"
| "split_on c (x # xs) =
     (if x = c then [] # split_on c xs
      else (case split_on c xs of [] \<Rightarrow> [[x]] | y # ys \<Rightarrow> (x # y) # ys))"

subsection \<open>\<^verbatim>\<open>pathlib.Path\<close> (pure part) and the filesystem\<close>

text \<open>
  A POSIX path is its root (\<^verbatim>\<open>''\<close>, \<^verbatim>\<open>'/'\<close> or \<^verbatim>\<open>'//'\<close>) and its names; parsing
  a string drops empty components and \<^verbatim>\<open>.\<close> components.
\<close>

record path =
  anchor :: string
  names :: "string list"

definition Path :: "string \<Rightarrow> path" where
  "Path s =
     \<lparr> anchor = (if startswith s ''//'' \<and> \<not> startswith s ''///'' then ''//''
                 else if startswith s ''/'' then ''/'' else []),
       names = filter (\<lambda>x. x \<noteq> [] \<and> x \<noteq> ''.'') (split_on sep s) \<rparr>"

definition is_absolute :: "path \<Rightarrow> bool" where
  "is_absolute p \<longleftrightarrow> anchor p \<noteq> []"

definition parts :: "path \<Rightarrow> string list" where
  "parts p = (if anchor p = [] then names p else anchor p # names p)"

definition parent :: "path \<Rightarrow> path" where
  "parent p = p\<lparr>names := butlast (names p)\<rparr>"

text \<open>
  \<^verbatim>\<open>p.relative_to(other).parts\<close>: the names of \<open>p\<close> below \<open>other\<close>, and \<open>None\<close> where
  pathlib raises ValueError because \<open>p\<close> is not below \<open>other\<close>.
\<close>

definition relative_to :: "path \<Rightarrow> path \<Rightarrow> string list option" where
  "relative_to p other =
     (if parts other = [] then (if anchor p \<noteq> [] then None else Some (parts p))
      else if take (length (parts other)) (parts p) = parts other
      then Some (drop (length (parts other)) (parts p))
      else None)"

text \<open>
  The filesystem is the external collaborator: \<^verbatim>\<open>Path.is_dir()\<close> and
  \<^verbatim>\<open>Path.resolve()\<close>, each with \<open>None\<close> where it raises. \<^verbatim>\<open>is_dir\<close> answers
  \<^verbatim>\<open>False\<close> for a path that does not exist, and raises the other errors of the
  operating system, such as a refused permission, as OSError.
\<close>

record filesystem =
  fs_is_dir :: "path \<Rightarrow> bool option"
  fs_resolve :: "path \<Rightarrow> path option"

section \<open>Regular expressions as \<^verbatim>\<open>fnmatch_pathname_to_regex\<close> builds them\<close>

text \<open>
  The translator collects string fragments in the list \<^verbatim>\<open>res\<close> and joins them. A
  \<open>node\<close> is one such fragment; \<open>render\<close> gives the text the source appends for it, so
  the regular expression of the source is \<open>concat (map render res)\<close>. Every fragment is a
  complete regular expression of its own, so the meaning of the joined text is the
  sequence of the meanings of the fragments.
\<close>

datatype node =
    Flags         \<comment> \<open>\<^verbatim>\<open>(?ms)\<close>\<close>
  | Bol           \<comment> \<open>\<^verbatim>\<open>^\<close>\<close>
  | Eol           \<comment> \<open>\<^verbatim>\<open>$\<close>\<close>
  | SlashEol      \<comment> \<open>\<^verbatim>\<open>/$\<close>\<close>
  | EolOrSlash    \<comment> \<open>\<^verbatim>\<open>($|\/)\<close>\<close>
  | AnyStar       \<comment> \<open>\<^verbatim>\<open>.*\<close>\<close>
  | OptSep        \<comment> \<open>\<^verbatim>\<open>[/]?\<close>, that is \<^verbatim>\<open>seps_group + '?'\<close>\<close>
  | NonSepStar    \<comment> \<open>\<^verbatim>\<open>[^/]*\<close>, that is \<^verbatim>\<open>nonsep + '*'\<close>\<close>
  | NonSep        \<comment> \<open>\<^verbatim>\<open>[^/]\<close>\<close>
  | Sep           \<comment> \<open>\<^verbatim>\<open>[/]\<close>, that is \<^verbatim>\<open>seps_group\<close>\<close>
  | LitBracket    \<comment> \<open>\<^verbatim>\<open>\[\<close>\<close>
  | Class string  \<comment> \<open>\<^verbatim>\<open>'[{}]'.format(stuff)\<close>\<close>
  | Lit char      \<comment> \<open>\<^verbatim>\<open>re.escape(c)\<close>\<close>

text \<open>\<^verbatim>\<open>re.escape\<close> on one character (Python 3.7 and later).\<close>

definition re_escape :: "char \<Rightarrow> string" where
  "re_escape c =
     (if c \<in> set (''()[]{}?*+-|^$.&~# '' @ [backslash, CHR 0x09, CHR 0x0A, CHR 0x0D, CHR 0x0B, CHR 0x0C])
      then [backslash, c] else [c])"

fun render :: "node \<Rightarrow> string" where
  "render Flags = ''(?ms)''"
| "render Bol = ''^''"
| "render Eol = ''$''"
| "render SlashEol = ''/$''"
| "render EolOrSlash = ''($|'' @ [backslash] @ ''/)''"
| "render AnyStar = ''.*''"
| "render OptSep = ''[/]?''"
| "render NonSepStar = ''[^/]*''"
| "render NonSep = ''[^/]''"
| "render Sep = ''[/]''"
| "render LitBracket = [backslash] @ ''[''"
| "render (Class stuff) = ''['' @ stuff @ '']''"
| "render (Lit c) = re_escape c"

definition regex_text :: "node list \<Rightarrow> string" where
  "regex_text res = concat (map render res)"

subsection \<open>The translator\<close>

text \<open>
  The \<^verbatim>\<open>[\<close> branch. \<open>rest\<close> is \<^verbatim>\<open>pattern[i:]\<close>, the text after the bracket, and
  \<open>class_end rest\<close> is \<^verbatim>\<open>j - i\<close> when the scan for the closing bracket stops.
\<close>

definition class_end :: "string \<Rightarrow> nat" where
  "class_end rest =
     (let j = 0;
          j = (if j < length rest \<and> rest ! j = CHR ''!'' then j + 1 else j);
          j = (if j < length rest \<and> rest ! j = CHR '']'' then j + 1 else j)
      in j + length (takeWhile (\<lambda>c. c \<noteq> CHR '']'') (drop j rest)))"

definition class_stuff :: "string \<Rightarrow> string" where
  "class_stuff raw =
     (let stuff = double_backslashes raw in
      if hd stuff = CHR ''!'' then ''^'' @ tl stuff
      else if hd stuff = CHR ''^'' then backslash # stuff
      else stuff)"

text \<open>
  The \<^verbatim>\<open>while i < n\<close> loop, on the text \<^verbatim>\<open>pattern[i:]\<close> that is still to be read;
  the result is what the loop appends to \<^verbatim>\<open>res\<close>. In the \<^verbatim>\<open>*\<close> branch an
  IndexError of a lookahead is caught and appends \<^verbatim>\<open>[^/]*\<close>, also after \<^verbatim>\<open>.*\<close>
  has been appended for a \<^verbatim>\<open>**\<close> that ends the pattern.
\<close>

function glob_scan :: "string \<Rightarrow> node list" where
  "glob_scan [] = []"
| "glob_scan (c # rest) =
     (if c = CHR ''*'' then
        (case rest of
           [] \<Rightarrow> [NonSepStar]
         | c1 # rest1 \<Rightarrow>
             if c1 = CHR ''*'' then
               (case rest1 of
                  [] \<Rightarrow> [AnyStar, NonSepStar]
                | c2 # rest2 \<Rightarrow>
                    if c2 = sep then AnyStar # OptSep # glob_scan rest2
                    else AnyStar # glob_scan rest1)
             else NonSepStar # glob_scan rest)
      else if c = CHR ''?'' then NonSep # glob_scan rest
      else if c = sep then Sep # glob_scan rest
      else if c = CHR ''['' then
        (let j = class_end rest in
         if j \<ge> length rest then LitBracket # glob_scan rest
         else Class (class_stuff (take j rest)) # glob_scan (drop (j + 1) rest))
      else Lit c # glob_scan rest)"
  by pat_completeness auto
termination
  by (relation "measure length") auto

definition fnmatch_pathname_to_regex :: "string \<Rightarrow> bool \<Rightarrow> bool \<Rightarrow> bool \<Rightarrow> node list" where
  "fnmatch_pathname_to_regex pat directory_only negation anchored =
     (let res = glob_scan pat;
          res = (if anchored then Bol # res else res);
          res = Flags # res
      in if \<not> directory_only then res @ [Eol]
         else if directory_only \<and> negation then res @ [SlashEol]
         else res @ [EolOrSlash])"

subsection \<open>\<^verbatim>\<open>re.search\<close> on these expressions\<close>

text \<open>
  A character class is read as \<^verbatim>\<open>re\<close> reads it: a leading \<^verbatim>\<open>^\<close> negates, a
  backslash makes the next character literal, \<^verbatim>\<open>a-b\<close> is a range, a \<^verbatim>\<open>-\<close> before the
  closing bracket is literal, and a range whose end is below its start is an error
  (\<^verbatim>\<open>bad character range\<close>). The closing bracket of the fragment is the end of the text:
  a \<^verbatim>\<open>]\<close> inside \<^verbatim>\<open>stuff\<close> can only be its first member, which \<^verbatim>\<open>re\<close> reads as a
  literal. The only escapes the translator writes are \<^verbatim>\<open>\\\<close> and \<^verbatim>\<open>\^\<close>.
\<close>

fun class_code :: "string \<Rightarrow> (char \<times> string) option" where
  "class_code [] = None"
| "class_code (c # cs) =
     (if c = backslash then (case cs of [] \<Rightarrow> None | d # ds \<Rightarrow> Some (d, ds))
      else Some (c, cs))"

function class_items :: "string \<Rightarrow> (char \<times> char) list option" where
  "class_items s =
     (if s = [] then Some []
      else case class_code s of
        None \<Rightarrow> None
      | Some (lo, r) \<Rightarrow>
          if r \<noteq> [] \<and> hd r = CHR ''-'' then
            (if tl r = [] then Some [(lo, lo), (CHR ''-'', CHR ''-'')]
             else case class_code (tl r) of
               None \<Rightarrow> None
             | Some (hi, r') \<Rightarrow>
                 if (of_char hi :: nat) < of_char lo then None
                 else map_option (Cons (lo, hi)) (class_items r'))
          else map_option (Cons (lo, lo)) (class_items r))"
  by pat_completeness auto
termination
proof (relation "measure length")
  show "wf (measure length)" by simp
next
  fix s :: string and x2 lo r p hi r'
  assume "class_code s = Some x2" "(lo, r) = x2" "class_code (tl r) = Some p" "(hi, r') = p"
  then have "length r < length s" "length r' < length (tl r)"
    by (cases s; cases "tl r"; auto split: if_splits list.splits)+
  then show "(r', s) \<in> measure length" by simp
next
  fix s :: string and x2 lo r
  assume "class_code s = Some x2" "(lo, r) = x2"
  then have "length r < length s"
    by (cases s; auto split: if_splits list.splits)
  then show "(r, s) \<in> measure length" by simp
qed

declare class_items.simps [simp del]

definition class_negated :: "string \<Rightarrow> bool" where
  "class_negated stuff \<longleftrightarrow> stuff \<noteq> [] \<and> hd stuff = CHR ''^''"

definition class_body :: "string \<Rightarrow> string" where
  "class_body stuff = (if class_negated stuff then tl stuff else stuff)"

definition class_mem :: "string \<Rightarrow> char \<Rightarrow> bool" where
  "class_mem stuff c =
     (case class_items (class_body stuff) of
        None \<Rightarrow> False
      | Some rs \<Rightarrow>
          class_negated stuff \<noteq>
            list_ex (\<lambda>(lo, hi). (of_char lo :: nat) \<le> of_char c \<and> (of_char c :: nat) \<le> of_char hi) rs)"

text \<open>\<^verbatim>\<open>re.compile\<close> accepts every fragment but a class with a bad range.\<close>

fun node_ok :: "node \<Rightarrow> bool" where
  "node_ok (Class stuff) = (class_items (class_body stuff) \<noteq> None)"
| "node_ok _ = True"

text \<open>
  \<open>match_here res prev s\<close>: the expression matches a prefix of \<open>s\<close>, where \<open>prev\<close> is the
  character before \<open>s\<close> in the subject (\<open>None\<close> at its start). The flags are those of
  \<^verbatim>\<open>(?ms)\<close>: \<^verbatim>\<open>.\<close> matches every character, \<^verbatim>\<open>^\<close> matches at the start of the
  subject and after a newline, \<^verbatim>\<open>$\<close> at its end and before a newline.
\<close>

definition at_bol :: "char option \<Rightarrow> bool" where
  "at_bol prev \<longleftrightarrow> prev = None \<or> prev = Some (CHR 0x0A)"

definition at_eol :: "string \<Rightarrow> bool" where
  "at_eol s \<longleftrightarrow> (case s of [] \<Rightarrow> True | c # _ \<Rightarrow> c = CHR 0x0A)"

fun one_char :: "node \<Rightarrow> char \<Rightarrow> bool" where
  "one_char NonSep c = (c \<noteq> sep)"
| "one_char Sep c = (c = sep)"
| "one_char LitBracket c = (c = CHR ''['')"
| "one_char (Class stuff) c = class_mem stuff c"
| "one_char (Lit x) c = (c = x)"
| "one_char _ c = False"

function match_here :: "node list \<Rightarrow> char option \<Rightarrow> string \<Rightarrow> bool" where
  "match_here [] prev s = True"
| "match_here (Flags # res) prev s = match_here res prev s"
| "match_here (Bol # res) prev s = (at_bol prev \<and> match_here res prev s)"
| "match_here (Eol # res) prev s = (at_eol s \<and> match_here res prev s)"
| "match_here (SlashEol # res) prev s =
     (case s of [] \<Rightarrow> False | c # cs \<Rightarrow> c = sep \<and> at_eol cs \<and> match_here res (Some c) cs)"
| "match_here (EolOrSlash # res) prev s =
     ((at_eol s \<and> match_here res prev s) \<or>
      (case s of [] \<Rightarrow> False | c # cs \<Rightarrow> c = sep \<and> match_here res (Some c) cs))"
| "match_here (AnyStar # res) prev s =
     (match_here res prev s \<or>
      (case s of [] \<Rightarrow> False | c # cs \<Rightarrow> match_here (AnyStar # res) (Some c) cs))"
| "match_here (NonSepStar # res) prev s =
     (match_here res prev s \<or>
      (case s of [] \<Rightarrow> False | c # cs \<Rightarrow> c \<noteq> sep \<and> match_here (NonSepStar # res) (Some c) cs))"
| "match_here (OptSep # res) prev s =
     (match_here res prev s \<or>
      (case s of [] \<Rightarrow> False | c # cs \<Rightarrow> c = sep \<and> match_here res (Some c) cs))"
| "match_here (NonSep # res) prev s =
     (case s of [] \<Rightarrow> False | c # cs \<Rightarrow> one_char NonSep c \<and> match_here res (Some c) cs)"
| "match_here (Sep # res) prev s =
     (case s of [] \<Rightarrow> False | c # cs \<Rightarrow> one_char Sep c \<and> match_here res (Some c) cs)"
| "match_here (LitBracket # res) prev s =
     (case s of [] \<Rightarrow> False | c # cs \<Rightarrow> one_char LitBracket c \<and> match_here res (Some c) cs)"
| "match_here (Class stuff # res) prev s =
     (case s of [] \<Rightarrow> False | c # cs \<Rightarrow> one_char (Class stuff) c \<and> match_here res (Some c) cs)"
| "match_here (Lit x # res) prev s =
     (case s of [] \<Rightarrow> False | c # cs \<Rightarrow> one_char (Lit x) c \<and> match_here res (Some c) cs)"
  by pat_completeness auto
termination
  by (relation "measure (\<lambda>(res, prev, s). 2 * length res + length s)") auto

text \<open>\<^verbatim>\<open>re.search\<close> tries every start position, from the left.\<close>

fun search_from :: "node list \<Rightarrow> char option \<Rightarrow> string \<Rightarrow> bool" where
  "search_from res prev [] = match_here res prev []"
| "search_from res prev (c # cs) = (match_here res prev (c # cs) \<or> search_from res (Some c) cs)"

definition re_search :: "node list \<Rightarrow> string \<Rightarrow> error + bool" where
  "re_search res s =
     (if list_all node_ok res then Inr (search_from res None s) else Inl ReError)"

section \<open>Rules\<close>

record IgnoreRule =
  pattern :: string
  regex :: "node list"
  negation :: bool
  directory_only :: bool
  anchored :: bool
  base_path :: path
  source :: "path \<times> nat"

text \<open>
  \<^verbatim>\<open>IgnoreRule.match\<close>. The directory hint \<open>is_dir\<close> is \<open>None\<close> when the caller
  gives none; then the filesystem is asked first, outside the \<^verbatim>\<open>try\<close>, and an error
  of \<^verbatim>\<open>is_dir()\<close> leaves the method. Whatever is raised while the path is resolved
  and made relative to the rule's base is caught and gives \<^verbatim>\<open>False\<close>; an error of
  \<^verbatim>\<open>re.search\<close> is not caught.
\<close>

definition match :: "filesystem \<Rightarrow> IgnoreRule \<Rightarrow> path \<Rightarrow> bool option \<Rightarrow> error + bool" where
  "match fs rule abs_path is_dir =
     (case (case is_dir of
              None \<Rightarrow> (case fs_is_dir fs abs_path of None \<Rightarrow> Inl OSError | Some b \<Rightarrow> Inr b)
            | Some d \<Rightarrow> Inr d) of
        Inl e \<Rightarrow> Inl e
      | Inr is_dir' \<Rightarrow>
          (case (case fs_resolve fs abs_path of
                   None \<Rightarrow> None
                 | Some p \<Rightarrow> relative_to p (base_path rule)) of
             None \<Rightarrow> Inr False
           | Some rel_path_parts \<Rightarrow>
               (let rel_path = join [sep] rel_path_parts;
                    rel_path = (if negation rule \<and> is_dir' then rel_path @ ''/'' else rel_path)
                in re_search (regex rule) rel_path)))"

subsection \<open>\<^verbatim>\<open>handle_negation\<close>\<close>

text \<open>The argument is a \<^verbatim>\<open>Path\<close>, a \<^verbatim>\<open>str\<close>, or something else.\<close>

datatype file_arg = PathArg path | StrArg string | OtherArg

text \<open>
  The first block of \<^verbatim>\<open>handle_negation\<close>: the path and the directory hint given to
  every rule. A \<^verbatim>\<open>Path\<close> carries no hint; a string carries the hint
  \<^verbatim>\<open>_file_path[-1] == os.sep\<close>, which is a boolean.
\<close>

definition path_and_hint :: "file_arg \<Rightarrow> error + (path \<times> bool option)" where
  "path_and_hint fp =
     (case fp of
        PathArg p \<Rightarrow> Inr (p, None)
      | StrArg s \<Rightarrow>
          (case py_last s of
             Inl e \<Rightarrow> Inl e
           | Inr c \<Rightarrow> Inr (Path s, Some (c = sep)))
      | OtherArg \<Rightarrow> Inl ValueError)"

text \<open>
  The loop \<^verbatim>\<open>for rule in reversed(rules)\<close>; the list given is the reversed one, in
  the order the loop visits it.
\<close>

fun walk_rules :: "filesystem \<Rightarrow> IgnoreRule list \<Rightarrow> path \<Rightarrow> bool option \<Rightarrow> error + bool" where
  "walk_rules fs [] file_path is_dir = Inr False"
| "walk_rules fs (rule # rules) file_path is_dir =
     (case match fs rule file_path is_dir of
        Inl e \<Rightarrow> Inl e
      | Inr m \<Rightarrow> if m then Inr (\<not> negation rule) else walk_rules fs rules file_path is_dir)"

definition handle_negation :: "filesystem \<Rightarrow> IgnoreRule list \<Rightarrow> file_arg \<Rightarrow> error + bool" where
  "handle_negation fs rules fp =
     (case path_and_hint fp of
        Inl e \<Rightarrow> Inl e
      | Inr (file_path, is_dir) \<Rightarrow> walk_rules fs (rev rules) file_path is_dir)"

subsection \<open>\<^verbatim>\<open>rule_from_pattern\<close>\<close>

definition assert_absolute :: "path \<Rightarrow> error + unit" where
  "assert_absolute p = (if \<not> is_absolute p then Inl ValueError else Inr ())"

text \<open>
  \<^verbatim>\<open>re.finditer(r'\*\*', pattern)\<close>: the start indices of the matches, which do not
  overlap; \<open>i\<close> is the index of the first character of the text still to be scanned.
\<close>

fun finditer_dstar :: "nat \<Rightarrow> string \<Rightarrow> nat list" where
  "finditer_dstar i (c # d # cs) =
     (if c = CHR ''*'' \<and> d = CHR ''*'' then i # finditer_dstar (i + 2) cs
      else finditer_dstar (i + 1) (d # cs))"
| "finditer_dstar i cs = []"

text \<open>The test of the loop body that discards the line.\<close>

definition invalid_dstar :: "string \<Rightarrow> nat \<Rightarrow> bool" where
  "invalid_dstar pat start_index \<longleftrightarrow>
     start_index \<noteq> 0 \<and> int start_index \<noteq> int (length pat) - 2 \<and>
     (pat ! (start_index - 1) \<noteq> sep \<or> pat ! (start_index + 2) \<noteq> sep)"

definition rule_from_pattern :: "string \<Rightarrow> path \<Rightarrow> path \<times> nat \<Rightarrow> error + IgnoreRule option" where
  "rule_from_pattern line base src =
     (case assert_absolute base of
        Inl e \<Rightarrow> Inl e
      | Inr _ \<Rightarrow>
        if strip line = [] then Inr None
        else if hd line = CHR ''#'' then Inr None
        else if str_contains line ''***'' then Inr None
        else
          let negation' = (hd line = CHR ''!'');
              pat = (if negation' then tl line else line)
          in
          if list_ex (invalid_dstar pat) (finditer_dstar 0 pat) then Inr None
          else if rstrip pat = ''/'' then Inr None
          else
            case py_last pat of
              Inl e \<Rightarrow> Inl e
            | Inr c \<Rightarrow>
                let directory_only' = (c = sep);
                    anchored' = (sep \<in> set (butlast pat));
                    pat = fst (str_lcut pat ''/'');
                    (pat, have_double_asterisk) = str_lcut pat ''**'';
                    anchored' = (if have_double_asterisk then False else anchored');
                    pat = fst (str_lcut pat ''/'');
                    pat = fst (str_rcut pat ''/'');
                    pat = (if startswith pat [backslash, CHR ''#''] then tl pat else pat);
                    pat = rstrip pat;
                    (pat, have_escaped_space) = str_rcut pat [backslash];
                    pat = (if have_escaped_space then pat @ '' '' else pat);
                    regex' = fnmatch_pathname_to_regex pat directory_only' negation' anchored'
                in Inr (Some \<lparr> pattern = line, regex = regex', negation = negation',
                                directory_only = directory_only', anchored = anchored',
                                base_path = base, source = src \<rparr>))"

subsection \<open>\<^verbatim>\<open>parse_gitignore\<close>\<close>

text \<open>
  The loop over the lines of the ignore file, which the caller's file supplies;
  \<open>lineno\<close> is the index of the first line given. A rule is never falsy, so every rule
  is appended.
\<close>

fun parse_lines :: "path \<Rightarrow> path \<Rightarrow> nat \<Rightarrow> string list \<Rightarrow> error + IgnoreRule list" where
  "parse_lines full_path base lineno [] = Inr []"
| "parse_lines full_path base lineno (line # lines) =
     (case rule_from_pattern (rstrip_nl line) base (full_path, lineno + 1) of
        Inl e \<Rightarrow> Inl e
      | Inr rule \<Rightarrow>
          (case parse_lines full_path base (lineno + 1) lines of
             Inl e \<Rightarrow> Inl e
           | Inr rules \<Rightarrow> Inr (case rule of None \<Rightarrow> rules | Some r \<Rightarrow> r # rules)))"

text \<open>
  \<^verbatim>\<open>parse_gitignore\<close> returns \<^verbatim>\<open>partial(handle_negation, rules)\<close>; the model
  returns the rules, and the matcher is \<open>handle_negation fs rules\<close>. \<open>lines\<close> is the
  content of the file.
\<close>

definition parse_gitignore ::
    "filesystem \<Rightarrow> string list \<Rightarrow> path \<Rightarrow> path option \<Rightarrow> error + IgnoreRule list" where
  "parse_gitignore fs lines full_path base_dir_arg =
     (let base_dir = (case base_dir_arg of None \<Rightarrow> parent full_path | Some b \<Rightarrow> b) in
      if lines = [] then Inr []
      else case fs_resolve fs base_dir of
        None \<Rightarrow> Inl OSError
      | Some base \<Rightarrow> parse_lines full_path base 0 lines)"

section \<open>Example data\<close>

text \<open>
  A repository at \<^verbatim>\<open>/repo\<close> with its ignore file, and two filesystems without
  symbolic links: one where every path is a directory, one where none is.
\<close>

definition repo :: path where
  "repo = \<lparr> anchor = ''/'', names = [''repo''] \<rparr>"

definition gitignore_file :: path where
  "gitignore_file = \<lparr> anchor = ''/'', names = [''repo'', ''.gitignore''] \<rparr>"

definition dirs_fs :: filesystem where
  "dirs_fs = \<lparr> fs_is_dir = (\<lambda>p. Some True), fs_resolve = Some \<rparr>"

definition files_fs :: filesystem where
  "files_fs = \<lparr> fs_is_dir = (\<lambda>p. Some False), fs_resolve = Some \<rparr>"


text \<open>The rules of the ignore file with the lines \<^verbatim>\<open>*\<close> and \<^verbatim>\<open>!d/\<close>.\<close>

definition star_then_not_d :: "IgnoreRule list" where
  "star_then_not_d =
     [\<lparr> pattern = ''*'', regex = [Flags, NonSepStar, Eol], negation = False,
         directory_only = False, anchored = False, base_path = repo,
         source = (gitignore_file, 1) \<rparr>,
      \<lparr> pattern = ''!d/'', regex = [Flags, Lit (CHR ''d''), SlashEol], negation = True,
         directory_only = True, anchored = False, base_path = repo,
         source = (gitignore_file, 2) \<rparr>]"

text \<open>The rule that \<open>rule_from_pattern\<close> compiles from the line \<^verbatim>\<open>a/**/b\<close>.\<close>

definition a_dstar_b :: IgnoreRule where
  "a_dstar_b =
     \<lparr> pattern = ''a/**/b'',
       regex = [Flags, Bol, Lit (CHR ''a''), Sep, AnyStar, OptSep, Lit (CHR ''b''), Eol],
       negation = False, directory_only = False, anchored = True, base_path = repo,
       source = (gitignore_file, 1) \<rparr>"

text \<open>The rules compiled from the lines \<^verbatim>\<open>foo/\<close> and \<^verbatim>\<open>!foo/\<close>.\<close>

definition foo_dir :: IgnoreRule where
  "foo_dir =
     \<lparr> pattern = ''foo/'',
       regex = [Flags, Lit (CHR ''f''), Lit (CHR ''o''), Lit (CHR ''o''), EolOrSlash],
       negation = False, directory_only = True, anchored = False, base_path = repo,
       source = (gitignore_file, 1) \<rparr>"

definition not_foo_dir :: IgnoreRule where
  "not_foo_dir =
     \<lparr> pattern = ''!foo/'',
       regex = [Flags, Lit (CHR ''f''), Lit (CHR ''o''), Lit (CHR ''o''), SlashEol],
       negation = True, directory_only = True, anchored = False, base_path = repo,
       source = (gitignore_file, 1) \<rparr>"

section \<open>The lines that give no rule, in the specification's words\<close>

text \<open>
  The classes of lines that the specification says are discarded: blank or
  whitespace-only; a comment, whose first character is \<^verbatim>\<open>#\<close>; three or more
  consecutive \<^verbatim>\<open>*\<close>; a \<^verbatim>\<open>**\<close> that is neither at the very start nor at the very
  end nor surrounded by \<^verbatim>\<open>/\<close> on both sides; exactly \<^verbatim>\<open>/\<close> after the trailing
  whitespace is stripped. \<open>void_line_claimed\<close> looks for the misplaced \<^verbatim>\<open>**\<close> in the
  line as it is given; \<open>void_line\<close> looks for it in the line without its leading
  \<^verbatim>\<open>!\<close>.
\<close>

definition whitespace_only :: "string \<Rightarrow> bool" where
  "whitespace_only l \<longleftrightarrow> list_all is_space l"

definition comment_line :: "string \<Rightarrow> bool" where
  "comment_line l \<longleftrightarrow> l \<noteq> [] \<and> hd l = CHR ''#''"

definition triple_star :: "string \<Rightarrow> bool" where
  "triple_star l \<longleftrightarrow>
     list_ex (\<lambda>i. l ! i = CHR ''*'' \<and> l ! (i + 1) = CHR ''*'' \<and> l ! (i + 2) = CHR ''*'')
       [0..<length l - 2]"

definition misplaced_dstar :: "string \<Rightarrow> bool" where
  "misplaced_dstar s \<longleftrightarrow>
     list_ex (\<lambda>i. s ! i = CHR ''*'' \<and> s ! (i + 1) = CHR ''*'' \<and>
                 i \<noteq> 0 \<and> i + 2 \<noteq> length s \<and>
                 \<not> (s ! (i - 1) = sep \<and> s ! (i + 2) = sep))
       [0..<length s - 1]"

definition bare_slash :: "string \<Rightarrow> bool" where
  "bare_slash l \<longleftrightarrow> rstrip l = ''/''"

definition without_bang :: "string \<Rightarrow> string" where
  "without_bang l = (if l \<noteq> [] \<and> hd l = CHR ''!'' then tl l else l)"

definition void_line_claimed :: "string \<Rightarrow> bool" where
  "void_line_claimed l \<longleftrightarrow>
     whitespace_only l \<or> comment_line l \<or> triple_star l \<or> misplaced_dstar l \<or> bare_slash l"

definition void_line :: "string \<Rightarrow> bool" where
  "void_line l \<longleftrightarrow>
     whitespace_only l \<or> comment_line l \<or> triple_star l \<or> misplaced_dstar (without_bang l) \<or>
     bare_slash l"

section \<open>The forward scan of the specification\<close>



section \<open>Plain names and positions in the subject\<close>

text \<open>
  A plain character is one that no step of \<^verbatim>\<open>rule_from_pattern\<close> or of the translator
  treats specially: not \<^verbatim>\<open>*\<close>, \<^verbatim>\<open>?\<close>, \<^verbatim>\<open>[\<close>, \<^verbatim>\<open>/\<close> or a backslash, and not
  white space. \<open>prev_after prev m\<close> is the character before the position reached when the
  text \<open>m\<close> has been read from a position whose previous character is \<open>prev\<close>.
  \<open>joinpath base ns\<close> is \<^verbatim>\<open>base.joinpath(*ns)\<close> for names \<open>ns\<close>.
\<close>

definition plain_char :: "char \<Rightarrow> bool" where
  "plain_char c \<longleftrightarrow> c \<notin> set ''*?[/'' \<and> c \<noteq> backslash \<and> \<not> is_space c"

definition plain :: "string \<Rightarrow> bool" where
  "plain x \<longleftrightarrow> list_all plain_char x"

definition prev_after :: "char option \<Rightarrow> string \<Rightarrow> char option" where
  "prev_after prev m = (if m = [] then prev else Some (last m))"

text \<open>The number of separators in a text.\<close>

definition seps :: "string \<Rightarrow> nat" where
  "seps s = length (filter (\<lambda>c. c = sep) s)"

definition joinpath :: "path \<Rightarrow> string list \<Rightarrow> path" where
  "joinpath base ns = base\<lparr>names := names base @ ns\<rparr>"

section \<open>What \<^verbatim>\<open>rule_from_pattern\<close> raises\<close>

lemma rule_from_pattern_not_absolute:
  "\<not> is_absolute base \<Longrightarrow> rule_from_pattern line base src = Inl ValueError"
  by (simp add: rule_from_pattern_def assert_absolute_def)

lemma strip_nonempty: "strip line \<noteq> [] \<Longrightarrow> line \<noteq> []"
  by (auto simp: strip_def rstrip_def)

lemma rule_from_pattern_raises_iff:
  assumes "is_absolute base"
  shows "(\<exists>e. rule_from_pattern line base src = Inl e) \<longleftrightarrow> line = ''!''"
proof
  assume "\<exists>e. rule_from_pattern line base src = Inl e"
  then obtain e where e: "rule_from_pattern line base src = Inl e" ..
  with assms have ne: "strip line \<noteq> []"
    by (auto simp: rule_from_pattern_def assert_absolute_def split: if_splits)
  then have nonempty: "line \<noteq> []" by (rule strip_nonempty)
  have last_raises: "py_last (if hd line = CHR ''!'' then tl line else line) = Inl e"
    using e assms ne
    by (auto simp: rule_from_pattern_def assert_absolute_def Let_def
          split: if_splits sum.splits prod.splits)
  with nonempty have bang: "hd line = CHR ''!''" and "tl line = []"
    by (auto simp: py_last_def split: if_splits)
  moreover note nonempty
  ultimately show "line = ''!''" using bang by (cases line) auto
next
  assume "line = ''!''"
  with assms show "\<exists>e. rule_from_pattern line base src = Inl e"
    by (simp add: rule_from_pattern_def assert_absolute_def Let_def py_last_def strip_def
          rstrip_def is_space_def startswith_def invalid_dstar_def)
qed

text \<open>
  C9. For the line that is the single character \<^verbatim>\<open>!\<close>, compiled against an absolute
  base path, \<^verbatim>\<open>rule_from_pattern\<close> raises IndexError: the pattern left after the
  negation mark is empty, and its last character \<^verbatim>\<open>pattern[-1]\<close> is read for the
  trailing-slash test. It returns neither \<^verbatim>\<open>None\<close> nor a rule.
\<close>

theorem bang_line_raises_IndexError:
  "is_absolute base \<Longrightarrow>
     rule_from_pattern ''!'' base src = Inl IndexError \<and> py_last (tl ''!'') = Inl IndexError"
  by (simp add: rule_from_pattern_def assert_absolute_def Let_def py_last_def strip_def
        rstrip_def is_space_def startswith_def invalid_dstar_def)

theorem bang_line_raises_IndexError_witness:
  "is_absolute (Path ''/home/user/project'') \<and>
   rule_from_pattern ''!'' (Path ''/home/user/project'') (Path ''/home/user/project/.gitignore'', 3)
     = Inl IndexError"
  using bang_line_raises_IndexError [of "Path ''/home/user/project''"
      "(Path ''/home/user/project/.gitignore'', 3)"]
  by (simp add: is_absolute_def Path_def startswith_def)

text \<open>
  C7. The claim is that \<^verbatim>\<open>rule_from_pattern\<close> raises only when the base path is not
  absolute. The code raises also here: the base path \<^verbatim>\<open>/repo\<close> is absolute, the line
  is \<^verbatim>\<open>!\<close>, and the call raises IndexError. (By \<open>rule_from_pattern_raises_iff\<close> this
  line is the only one on which a call with an absolute base path raises, and by
  \<open>rule_from_pattern_not_absolute\<close> every call with another base path raises ValueError.)
\<close>

theorem absolute_base_bang_line_raises:
  "is_absolute repo \<and> rule_from_pattern ''!'' repo (gitignore_file, 1) = Inl IndexError"
  by (simp add: rule_from_pattern_def assert_absolute_def Let_def py_last_def strip_def
        rstrip_def is_space_def startswith_def invalid_dstar_def is_absolute_def repo_def)

section \<open>Reads that stay in range\<close>

text \<open>
  Two places of the model read a list where HOL gives no meaning to a read out of range; in
  both the source reads in range as well. The text of a character class is not empty when
  its first character \<^verbatim>\<open>stuff[0]\<close> is read, and the two characters around a
  \<^verbatim>\<open>**\<close> exist when the test of \<^verbatim>\<open>rule_from_pattern\<close> reads them.
\<close>

lemma class_stuff_nonempty:
  assumes "class_end rest < length rest"
  shows "double_backslashes (take (class_end rest) rest) \<noteq> []"
proof -
  have "0 < class_end rest"
  proof (cases rest)
    case Nil
    with assms show ?thesis by simp
  next
    case (Cons c cs)
    show ?thesis
    proof (cases "c = CHR ''!'' \<or> c = CHR '']''")
      case True
      with Cons show ?thesis by (auto simp: class_end_def Let_def)
    next
      case False
      with Cons show ?thesis by (simp add: class_end_def Let_def)
    qed
  qed
  with assms have "take (class_end rest) rest \<noteq> []" by (cases rest) auto
  then show ?thesis
    by (cases "take (class_end rest) rest") (auto simp: double_backslashes_def)
qed

lemma finditer_in_range:
  "i \<in> set (finditer_dstar k s) \<Longrightarrow> k \<le> i \<and> i + 2 \<le> k + length s"
  by (induction k s arbitrary: i rule: finditer_dstar.induct) (fastforce split: if_splits)+

lemma invalid_dstar_reads_in_range:
  assumes "i \<in> set (finditer_dstar 0 pat)" "i \<noteq> 0" "int i \<noteq> int (length pat) - 2"
  shows "i - 1 < length pat \<and> i + 2 < length pat"
  using finditer_in_range [OF assms(1)] assms(2,3) by auto

section \<open>The matcher on the empty string\<close>

text \<open>
  C10. The matcher returned by \<^verbatim>\<open>parse_gitignore\<close> is \<^verbatim>\<open>handle_negation\<close> on the
  compiled rules. Called with the empty string it raises IndexError, whatever the rules
  are: the last character of the string is read to test for a trailing separator.
\<close>

theorem empty_string_candidate_raises:
  "handle_negation fs rules (StrArg []) = Inl IndexError"
  by (simp add: handle_negation_def path_and_hint_def py_last_def)

section \<open>The walk over the rules\<close>


lemma match_error:
  "match fs r p d = Inl e \<Longrightarrow>
     (e = OSError \<and> d = None \<and> fs_is_dir fs p = None) \<or>
     (e = ReError \<and> \<not> list_all node_ok (regex r))"
  by (auto simp: match_def re_search_def Let_def split: option.splits if_splits sum.splits)




subsection \<open>Reverse scan and forward scan\<close>







section \<open>The directory hint of a string argument\<close>

text \<open>
  C5, as claimed: a string that does not end in the separator is treated like a
  \<^verbatim>\<open>Path\<close>, whose directory-ness is probed. It is not. The ignore file has the lines
  \<^verbatim>\<open>*\<close> and \<^verbatim>\<open>!d/\<close>, and \<^verbatim>\<open>/repo/d\<close> is a directory. Given as a \<^verbatim>\<open>Path\<close> it
  is probed, the negation matches and it is not ignored; given as the string
  \<^verbatim>\<open>/repo/d\<close> the hint is \<^verbatim>\<open>False\<close>, the negation does not match and it is ignored.
\<close>

theorem string_hint_counterexample:
  "parse_gitignore dirs_fs [''*'' @ [CHR 0x0A], ''!d/'' @ [CHR 0x0A]] gitignore_file None
     = Inr star_then_not_d \<and>
   handle_negation dirs_fs star_then_not_d (StrArg ''/repo/d'') = Inr True \<and>
   handle_negation dirs_fs star_then_not_d (PathArg (Path ''/repo/d'')) = Inr False"
  by code_simp

lemma match_hint_no_probe:
  "match (fs\<lparr>fs_is_dir := f\<rparr>) r p (Some h) = match fs r p (Some h)"
  by (simp add: match_def)

lemma walk_rules_hint_no_probe:
  "walk_rules (fs\<lparr>fs_is_dir := f\<rparr>) rs p (Some h) = walk_rules fs rs p (Some h)"
  by (induction rs) (auto simp: match_hint_no_probe split: sum.splits)

text \<open>
  C5, amended. For a string argument that is not empty the directory hint is the boolean
  "the last character is the separator": \<^verbatim>\<open>True\<close> when it is, \<^verbatim>\<open>False\<close> when it
  is not. The rules are walked with that hint, and the filesystem's answer to
  \<^verbatim>\<open>is_dir\<close> has no influence on the result: a string is never probed.
\<close>

theorem string_hint_is_last_character:
  assumes "s \<noteq> []"
  shows "path_and_hint (StrArg s) = Inr (Path s, Some (last s = sep)) \<and>
         handle_negation fs rules (StrArg s)
           = walk_rules fs (rev rules) (Path s) (Some (last s = sep)) \<and>
         handle_negation (fs\<lparr>fs_is_dir := f\<rparr>) rules (StrArg s)
           = handle_negation fs rules (StrArg s)"
  using assms
  by (simp add: handle_negation_def path_and_hint_def py_last_def walk_rules_hint_no_probe)

theorem string_hint_is_last_character_witness:
  "''/repo/d'' \<noteq> [] \<and>
   path_and_hint (StrArg ''/repo/d'') = Inr (Path ''/repo/d'', Some False) \<and>
   handle_negation (dirs_fs\<lparr>fs_is_dir := (\<lambda>p. Some False)\<rparr>) star_then_not_d (StrArg ''/repo/d'')
     = handle_negation dirs_fs star_then_not_d (StrArg ''/repo/d'')"
  using string_hint_is_last_character [of "''/repo/d''" dirs_fs star_then_not_d "\<lambda>p. Some False"]
  by simp

section \<open>Lines that give no rule\<close>

lemma dropWhile_all: "\<forall>x\<in>set xs. P x \<Longrightarrow> dropWhile P xs = []"
  by (induction xs) auto

lemma whitespace_only_strip: "whitespace_only l \<Longrightarrow> strip l = []"
proof -
  assume "whitespace_only l"
  then have "\<forall>x\<in>set (rev l). is_space x"
    by (simp add: whitespace_only_def list_all_iff)
  then have dw: "dropWhile is_space (rev l) = []"
    by (rule dropWhile_all)
  show ?thesis unfolding strip_def rstrip_def dw by simp
qed

lemma startswith_Nil: "startswith s [] = True"
  by (simp add: startswith_def)

lemma startswith_Cons: "startswith s (a # m) \<longleftrightarrow> (\<exists>t. s = a # t \<and> startswith t m)"
  by (cases s) (auto simp: startswith_def)

lemma startswith_iff: "startswith s m \<longleftrightarrow> (\<exists>b. s = m @ b)"
proof
  assume "startswith s m"
  then have "take (length m) s = m" by (simp add: startswith_def)
  then have "s = m @ drop (length m) s" using append_take_drop_id [of "length m" s] by simp
  then show "\<exists>b. s = m @ b" ..
next
  assume "\<exists>b. s = m @ b"
  then show "startswith s m" by (auto simp: startswith_def)
qed

lemma str_contains_iff: "str_contains s m \<longleftrightarrow> (\<exists>a b. s = a @ m @ b)"
proof (induction s)
  case Nil
  show ?case by auto
next
  case (Cons c cs)
  show ?case
  proof
    assume "str_contains (c # cs) m"
    then consider "startswith (c # cs) m" | "str_contains cs m" by auto
    then show "\<exists>a b. c # cs = a @ m @ b"
    proof cases
      case 1
      then obtain b where "c # cs = m @ b" unfolding startswith_iff by blast
      then have "c # cs = [] @ m @ b" by simp
      then show ?thesis by blast
    next
      case 2
      with Cons obtain a b where "cs = a @ m @ b" by blast
      then have "c # cs = (c # a) @ m @ b" by simp
      then show ?thesis by blast
    qed
  next
    assume "\<exists>a b. c # cs = a @ m @ b"
    then obtain a b where ab: "c # cs = a @ m @ b" by blast
    show "str_contains (c # cs) m"
    proof (cases a)
      case Nil
      with ab have "\<exists>b. c # cs = m @ b" by simp
      then have "startswith (c # cs) m" unfolding startswith_iff .
      then show ?thesis using str_contains.simps(2) by blast
    next
      case (Cons x a')
      with ab have "cs = a' @ m @ b" by simp
      then have "str_contains cs m" using Cons.IH by blast
      then show ?thesis using str_contains.simps(2) by blast
    qed
  qed
qed

lemma triple_star_contains:
  assumes "triple_star l"
  shows "str_contains l ''***''"
proof -
  from assms obtain i where i: "i < length l - 2" "l ! i = CHR ''*''" "l ! Suc i = CHR ''*''"
      "l ! Suc (Suc i) = CHR ''*''"
    by (auto simp: triple_star_def list_ex_iff)
  then have len: "Suc (Suc i) < length l" by simp
  have d1: "drop i l = l ! i # drop (Suc i) l"
    using len by (simp add: Cons_nth_drop_Suc)
  have d2: "drop (Suc i) l = l ! Suc i # drop (Suc (Suc i)) l"
    using len by (simp add: Cons_nth_drop_Suc)
  have d3: "drop (Suc (Suc i)) l = l ! Suc (Suc i) # drop (Suc (Suc (Suc i))) l"
    using len by (simp add: Cons_nth_drop_Suc)
  have "l = take i l @ drop i l" by simp
  also have "drop i l = ''***'' @ drop (Suc (Suc (Suc i))) l"
    using d1 d2 d3 i by simp
  finally show ?thesis unfolding str_contains_iff by blast
qed

lemma not_contains_tl: "\<not> str_contains l m \<Longrightarrow> \<not> str_contains (tl l) m"
  by (cases l) auto

lemma finditer_finds:
  "\<not> str_contains s ''***'' \<Longrightarrow> Suc i < length s \<Longrightarrow> s ! i = CHR ''*'' \<Longrightarrow>
   s ! Suc i = CHR ''*'' \<Longrightarrow> k + i \<in> set (finditer_dstar k s)"
proof (induction k s arbitrary: i rule: finditer_dstar.induct)
  case (1 k c d cs)
  from "1.prems"(1) have no3: "\<not> startswith (c # d # cs) ''***''"
      "\<not> str_contains (d # cs) ''***''" "\<not> str_contains cs ''***''"
    by auto
  show ?case
  proof (cases "c = CHR ''*'' \<and> d = CHR ''*''")
    case True
    show ?thesis
    proof (cases i)
      case 0
      with True show ?thesis by simp
    next
      case (Suc j)
      show ?thesis
      proof (cases j)
        case 0
        with Suc "1.prems" have "cs \<noteq> []" "hd cs = CHR ''*''"
          by (auto simp: hd_conv_nth)
        with True no3(1) show ?thesis
          by (cases cs) (auto simp: startswith_Cons startswith_Nil)
      next
        case (Suc j')
        with \<open>i = Suc j\<close> "1.prems" have "Suc j' < length cs" "cs ! j' = CHR ''*''"
            "cs ! Suc j' = CHR ''*''"
          by auto
        with "1.IH"(1) [OF True no3(3)] have "k + 2 + j' \<in> set (finditer_dstar (k + 2) cs)"
          by blast
        with True Suc \<open>i = Suc j\<close> show ?thesis by simp
      qed
    qed
  next
    case False
    show ?thesis
    proof (cases i)
      case 0
      with "1.prems" False show ?thesis by simp
    next
      case (Suc j)
      with "1.prems" have "Suc j < length (d # cs)" "(d # cs) ! j = CHR ''*''"
          "(d # cs) ! Suc j = CHR ''*''"
        by auto
      with "1.IH"(2) [OF False no3(2)] have "k + 1 + j \<in> set (finditer_dstar (k + 1) (d # cs))"
        by blast
      with False Suc show ?thesis by auto
    qed
  qed
qed simp_all

lemma misplaced_invalid:
  assumes "misplaced_dstar pat" "\<not> str_contains pat ''***''"
  shows "list_ex (invalid_dstar pat) (finditer_dstar 0 pat)"
proof -
  from assms(1) obtain i where i: "i < length pat - 1" "pat ! i = CHR ''*''"
      "pat ! Suc i = CHR ''*''" "i \<noteq> 0" "Suc (Suc i) \<noteq> length pat"
      "\<not> (pat ! (i - 1) = sep \<and> pat ! Suc (Suc i) = sep)"
    by (auto simp: misplaced_dstar_def list_ex_iff)
  then have "Suc i < length pat" by simp
  with finditer_finds [OF assms(2) this, of 0] i have "i \<in> set (finditer_dstar 0 pat)"
    by simp
  moreover have "invalid_dstar pat i"
    using i by (auto simp: invalid_dstar_def)
  ultimately show ?thesis by (auto simp: list_ex_iff)
qed

lemma rstrip_prefix: "\<exists>t. l = rstrip l @ t"
proof -
  have "rev l = takeWhile is_space (rev l) @ dropWhile is_space (rev l)" by simp
  then have "rev (rev l) = rev (takeWhile is_space (rev l) @ dropWhile is_space (rev l))"
    by (rule arg_cong)
  then have "l = rstrip l @ rev (takeWhile is_space (rev l))"
    by (simp only: rev_rev_ident rev_append rstrip_def)
  then show ?thesis ..
qed

lemma bare_slash_no_bang: "bare_slash l \<Longrightarrow> without_bang l = l"
proof -
  assume "bare_slash l"
  then have "rstrip l = ''/''" by (simp add: bare_slash_def)
  with rstrip_prefix [of l] obtain t where "l = ''/'' @ t" by metis
  then show ?thesis by (simp add: without_bang_def)
qed

lemma void_line_no_rule:
  assumes "is_absolute base" "void_line l"
  shows "rule_from_pattern l base src = Inr None"
proof (cases "strip l = [] \<or> hd l = CHR ''#'' \<or> str_contains l ''***''")
  case True
  with assms(1) show ?thesis
    by (auto simp: rule_from_pattern_def assert_absolute_def)
next
  case False
  then have ne: "l \<noteq> []" using strip_nonempty by blast
  have pat: "(if hd l = CHR ''!'' then tl l else l) = without_bang l"
    using ne by (simp add: without_bang_def)
  from assms(2) False ne consider "misplaced_dstar (without_bang l)" | "bare_slash l"
    using whitespace_only_strip triple_star_contains
    by (auto simp: void_line_def comment_line_def)
  then have "list_ex (invalid_dstar (without_bang l)) (finditer_dstar 0 (without_bang l)) \<or>
             rstrip (without_bang l) = ''/''"
  proof cases
    case 1
    from False have "\<not> str_contains (without_bang l) ''***''"
      using not_contains_tl by (simp add: without_bang_def)
    with 1 show ?thesis using misplaced_invalid by blast
  next
    case 2
    then show ?thesis using bare_slash_no_bang by (simp add: bare_slash_def)
  qed
  with assms(1) False show ?thesis
    by (auto simp: rule_from_pattern_def assert_absolute_def Let_def pat)
qed

lemma parse_lines_append:
  "parse_lines fp base n (xs @ ys) =
     (case parse_lines fp base n xs of
        Inl e \<Rightarrow> Inl e
      | Inr rs \<Rightarrow>
          (case parse_lines fp base (n + length xs) ys of
             Inl e \<Rightarrow> Inl e
           | Inr rs' \<Rightarrow> Inr (rs @ rs')))"
  by (induction xs arbitrary: n) (auto split: sum.splits option.splits)


text \<open>
  C6, as claimed: every line with a \<^verbatim>\<open>**\<close> that is neither at its very start nor
  at its very end nor surrounded by \<^verbatim>\<open>/\<close> gives no rule. In the line \<^verbatim>\<open>!**/a\<close>
  the \<^verbatim>\<open>**\<close> follows the \<^verbatim>\<open>!\<close>, so it is such a line; the code strips the
  \<^verbatim>\<open>!\<close> before it examines the \<^verbatim>\<open>**\<close>, and compiles a rule.
\<close>

theorem negated_leading_dstar_counterexample:
  "void_line_claimed ''!**/a'' \<and> is_absolute repo \<and>
   rule_from_pattern ''!**/a'' repo (gitignore_file, 1) =
     Inr (Some \<lparr> pattern = ''!**/a'', regex = [Flags, Lit (CHR ''a''), Eol], negation = True,
                  directory_only = False, anchored = False, base_path = repo,
                  source = (gitignore_file, 1) \<rparr>)"
  by code_simp

text \<open>
  C6, amended: the place of a \<^verbatim>\<open>**\<close> is judged in the line without its leading
  \<^verbatim>\<open>!\<close>. For every such line \<open>l\<close>, compiled against an absolute base path,
  \<^verbatim>\<open>rule_from_pattern\<close> returns \<^verbatim>\<open>None\<close> and does not raise; and when \<open>l\<close> is a
  line of the ignore file, the rules compiled are those of the lines before it followed by
  those of the lines after it, each with its own line number.
\<close>

theorem void_line_yields_no_rule:
  assumes "is_absolute base" "void_line l"
  shows "rule_from_pattern l base src = Inr None \<and>
         (rstrip_nl raw = l \<longrightarrow>
          parse_lines fp base n (before @ raw # after) =
            (case parse_lines fp base n before of
               Inl e \<Rightarrow> Inl e
             | Inr rs \<Rightarrow>
                 (case parse_lines fp base (n + length before + 1) after of
                    Inl e \<Rightarrow> Inl e
                  | Inr rs' \<Rightarrow> Inr (rs @ rs'))))"
proof
  show "rule_from_pattern l base src = Inr None"
    using assms by (rule void_line_no_rule)
  show "rstrip_nl raw = l \<longrightarrow>
          parse_lines fp base n (before @ raw # after) =
            (case parse_lines fp base n before of
               Inl e \<Rightarrow> Inl e
             | Inr rs \<Rightarrow>
                 (case parse_lines fp base (n + length before + 1) after of
                    Inl e \<Rightarrow> Inl e
                  | Inr rs' \<Rightarrow> Inr (rs @ rs')))"
  proof
    assume "rstrip_nl raw = l"
    then have "rule_from_pattern (rstrip_nl raw) base (fp, n + length before + 1) = Inr None"
      using assms void_line_no_rule by blast
    then show "parse_lines fp base n (before @ raw # after) =
            (case parse_lines fp base n before of
               Inl e \<Rightarrow> Inl e
             | Inr rs \<Rightarrow>
                 (case parse_lines fp base (n + length before + 1) after of
                    Inl e \<Rightarrow> Inl e
                  | Inr rs' \<Rightarrow> Inr (rs @ rs')))"
      by (simp add: parse_lines_append split: sum.splits)
  qed
qed

theorem void_line_yields_no_rule_witness:
  "is_absolute repo \<and> void_line ''!a**b'' \<and>
   rule_from_pattern ''!a**b'' repo (gitignore_file, 2) = Inr None \<and>
   parse_lines gitignore_file repo 0
       ([''*.txt'' @ [CHR 0x0A]] @ (''!a**b'' @ [CHR 0x0A]) # [''!keep.txt'' @ [CHR 0x0A]]) =
     (case parse_lines gitignore_file repo 0 [''*.txt'' @ [CHR 0x0A]] of
        Inl e \<Rightarrow> Inl e
      | Inr rs \<Rightarrow>
          (case parse_lines gitignore_file repo (0 + length [''*.txt'' @ [CHR 0x0A]] + 1)
                  [''!keep.txt'' @ [CHR 0x0A]] of
             Inl e \<Rightarrow> Inl e
           | Inr rs' \<Rightarrow> Inr (rs @ rs')))"
proof -
  have a: "is_absolute repo" by code_simp
  have v: "void_line ''!a**b''" by code_simp
  have r: "rstrip_nl (''!a**b'' @ [CHR 0x0A]) = ''!a**b''" by code_simp
  show ?thesis
    using a v r
      void_line_yields_no_rule [OF a v, of "(gitignore_file, 2)" "''!a**b'' @ [CHR 0x0A]"
        gitignore_file 0 "[''*.txt'' @ [CHR 0x0A]]" "[''!keep.txt'' @ [CHR 0x0A]]"]
    by blast
qed

section \<open>Two patterns evaluated\<close>

text \<open>
  C3. The claim is that for \<^verbatim>\<open>a/**/b\<close> the text matched between \<^verbatim>\<open>a/\<close> and
  \<^verbatim>\<open>b\<close> is a sequence of whole segments, each ended by a separator, so that
  \<^verbatim>\<open>a/xb\<close> does not match. The code compiles the line to
  \<^verbatim>\<open>(?ms)^a[/].*[/]?b$\<close>: the \<^verbatim>\<open>**/\<close> becomes \<^verbatim>\<open>.*\<close> and an optional separator,
  and the file \<^verbatim>\<open>/repo/a/xb\<close> matches and is ignored.
\<close>

theorem dstar_slash_matches_partial_segment:
  "rule_from_pattern ''a/**/b'' repo (gitignore_file, 1) = Inr (Some a_dstar_b) \<and>
   regex_text (regex a_dstar_b) = ''(?ms)^a[/].*[/]?b$'' \<and>
   match files_fs a_dstar_b (Path ''/repo/a/xb'') None = Inr True \<and>
   handle_negation files_fs [a_dstar_b] (StrArg ''/repo/a/xb'') = Inr True"
  by code_simp

text \<open>
  C2. The claim is that a rule compiled from a pattern with a trailing \<^verbatim>\<open>/\<close> and no
  \<^verbatim>\<open>!\<close> never reports a plain file as ignored. The line \<^verbatim>\<open>foo/\<close> compiles to a
  rule with \<open>directory_only\<close> set; \<^verbatim>\<open>/repo/foo\<close> is not a directory; the rule
  matches it and the matcher reports it as ignored, with the hint probed and with the hint
  \<^verbatim>\<open>False\<close>. (The rule of \<^verbatim>\<open>!foo/\<close> does not match it.)
\<close>

theorem directory_only_rule_matches_plain_file:
  "rule_from_pattern ''foo/'' repo (gitignore_file, 1) = Inr (Some foo_dir) \<and>
   directory_only foo_dir \<and> \<not> negation foo_dir \<and>
   fs_is_dir files_fs (Path ''/repo/foo'') = Some False \<and>
   match files_fs foo_dir (Path ''/repo/foo'') None = Inr True \<and>
   match files_fs foo_dir (Path ''/repo/foo'') (Some False) = Inr True \<and>
   handle_negation files_fs [foo_dir] (PathArg (Path ''/repo/foo'')) = Inr True \<and>
   handle_negation files_fs [foo_dir] (StrArg ''/repo/foo'') = Inr True"
  by code_simp

lemma negated_directory_only_rule_needs_directory:
  "rule_from_pattern ''!foo/'' repo (gitignore_file, 1) = Inr (Some not_foo_dir) \<and>
   match files_fs not_foo_dir (Path ''/repo/foo'') None = Inr False \<and>
   match dirs_fs not_foo_dir (Path ''/repo/foo'') None = Inr True"
  by code_simp

section \<open>\<^verbatim>\<open>*\<close> and \<^verbatim>\<open>**\<close>\<close>

lemma plain_charD:
  "plain_char c \<Longrightarrow>
     c \<noteq> CHR ''*'' \<and> c \<noteq> CHR ''?'' \<and> c \<noteq> CHR ''['' \<and> c \<noteq> sep \<and> c \<noteq> backslash \<and> \<not> is_space c"
  by (simp add: plain_char_def)

lemma plain_Nil: "plain []"
  by (simp add: plain_def)

lemma plain_Cons: "plain (c # x) \<longleftrightarrow> plain_char c \<and> plain x"
  by (simp add: plain_def)

lemma plain_last: "plain x \<Longrightarrow> x \<noteq> [] \<Longrightarrow> plain_char (last x)"
  by (simp add: plain_def list_all_iff)

lemma plain_hd: "plain x \<Longrightarrow> x \<noteq> [] \<Longrightarrow> plain_char (hd x)"
  by (simp add: plain_def list_all_iff)

lemma plain_no_star: "plain x \<Longrightarrow> CHR ''*'' \<notin> set x"
  by (auto simp: plain_def list_all_iff dest: plain_charD)

lemma plain_no_sep: "plain x \<Longrightarrow> sep \<notin> set x"
  by (auto simp: plain_def list_all_iff dest: plain_charD)

subsection \<open>The translator on plain text\<close>

lemma glob_scan_plain: "plain x \<Longrightarrow> glob_scan (x @ s) = map Lit x @ glob_scan s"
proof (induction x)
  case Nil
  show ?case by simp
next
  case (Cons c x)
  then have "plain_char c" "plain x" by (simp_all add: plain_Cons)
  with Cons.IH plain_charD [of c] show ?case by simp
qed

lemma glob_scan_plain_only: "plain x \<Longrightarrow> glob_scan x = map Lit x"
  using glob_scan_plain [of x "[]"] by simp

subsection \<open>The tests of \<^verbatim>\<open>rule_from_pattern\<close> on plain text\<close>

lemma contains_plain:
  "plain x \<Longrightarrow> str_contains (x @ s) ''***'' = str_contains s ''***''"
proof (induction x)
  case Nil
  show ?case by simp
next
  case (Cons c x)
  then have "plain_char c" "plain x" by (simp_all add: plain_Cons)
  with Cons.IH plain_charD [of c] show ?case by (simp add: startswith_Cons)
qed

lemma finditer_no_star: "CHR ''*'' \<notin> set s \<Longrightarrow> finditer_dstar k s = []"
  by (induction k s rule: finditer_dstar.induct) auto

lemma finditer_plain:
  "CHR ''*'' \<notin> set x \<Longrightarrow> finditer_dstar k (x @ s) = finditer_dstar (k + length x) s"
proof (induction x arbitrary: k)
  case Nil
  show ?case by simp
next
  case (Cons c x)
  then have c: "c \<noteq> CHR ''*''" and x: "CHR ''*'' \<notin> set x"
    by auto
  show ?case
  proof (cases "x @ s")
    case Nil
    then show ?thesis by simp
  next
    case (Cons d t)
    then have "finditer_dstar k ((c # x) @ s) = finditer_dstar (k + 1) (x @ s)"
      using c by simp
    with Cons.IH [OF x, of "k + 1"] show ?thesis by simp
  qed
qed

lemma rstrip_id: "s \<noteq> [] \<Longrightarrow> \<not> is_space (last s) \<Longrightarrow> rstrip s = s"
proof -
  assume "s \<noteq> []" "\<not> is_space (last s)"
  then have "rev s = last s # rev (butlast s)"
    by (metis append_butlast_last_id rev.simps(2) rev_append rev_rev_ident append_Nil rev_singleton_conv)
  then have r: "rev s = last s # rev (butlast s)" .
  have "dropWhile is_space (rev s) = rev s"
    unfolding r using \<open>\<not> is_space (last s)\<close> by simp
  then show ?thesis by (simp add: rstrip_def)
qed

lemma strip_nonspace_last: "s \<noteq> [] \<Longrightarrow> \<not> is_space (last s) \<Longrightarrow> strip s \<noteq> []"
proof -
  assume s: "s \<noteq> []" "\<not> is_space (last s)"
  then have "rstrip s = s" by (rule rstrip_id)
  moreover have "dropWhile is_space s \<noteq> []"
  proof
    assume "dropWhile is_space s = []"
    then have "\<forall>c\<in>set s. is_space c" by (simp only: dropWhile_eq_Nil_conv)
    with s show False by (simp add: last_in_set)
  qed
  ultimately show ?thesis by (simp add: strip_def)
qed

lemma endswith_single: "endswith s [c] \<longleftrightarrow> s \<noteq> [] \<and> last s = c"
proof (cases "s = []")
  case True
  then show ?thesis by (simp add: endswith_def)
next
  case False
  then have "drop (length s - 1) s = [last s]"
    by (induction s) (auto simp: drop_Cons')
  with False show ?thesis
    by (cases s) (auto simp: endswith_def)
qed

subsection \<open>What the fragments consume\<close>

lemma prev_after_Nil: "prev_after prev [] = prev"
  by (simp add: prev_after_def)

lemma prev_after_Cons: "prev_after prev (c # m) = prev_after (Some c) m"
  by (simp add: prev_after_def)

lemma prev_after_append: "prev_after prev (a @ b) = prev_after (prev_after prev a) b"
  by (simp add: prev_after_def)

lemma match_here_lits:
  "match_here (map Lit x @ res) prev s \<longleftrightarrow>
     (\<exists>t. s = x @ t \<and> match_here res (prev_after prev x) t)"
proof (induction x arbitrary: prev s)
  case Nil
  show ?case by (simp add: prev_after_Nil)
next
  case (Cons c x)
  show ?case
    by (cases s) (auto simp: Cons.IH prev_after_Cons)
qed

lemma match_here_NonSepStar:
  "match_here (NonSepStar # res) prev s \<longleftrightarrow>
     (\<exists>m t. s = m @ t \<and> sep \<notin> set m \<and> match_here res (prev_after prev m) t)"
proof (induction s arbitrary: prev)
  case Nil
  show ?case by (simp add: prev_after_Nil)
next
  case (Cons c s)
  show ?case
  proof
    assume "match_here (NonSepStar # res) prev (c # s)"
    then consider "match_here res prev (c # s)"
      | "c \<noteq> sep" "match_here (NonSepStar # res) (Some c) s"
      by auto
    then show "\<exists>m t. c # s = m @ t \<and> sep \<notin> set m \<and> match_here res (prev_after prev m) t"
    proof cases
      case 1
      then have "c # s = [] @ (c # s) \<and> sep \<notin> set [] \<and> match_here res (prev_after prev []) (c # s)"
        by (simp add: prev_after_Nil)
      then show ?thesis by blast
    next
      case 2
      with Cons [of "Some c"] obtain m t where
        "s = m @ t" "sep \<notin> set m" "match_here res (prev_after (Some c) m) t"
        by blast
      with 2(1) have "c # s = (c # m) @ t \<and> sep \<notin> set (c # m) \<and>
          match_here res (prev_after prev (c # m)) t"
        by (simp add: prev_after_Cons)
      then show ?thesis by blast
    qed
  next
    assume "\<exists>m t. c # s = m @ t \<and> sep \<notin> set m \<and> match_here res (prev_after prev m) t"
    then obtain m t where mt: "c # s = m @ t" "sep \<notin> set m" "match_here res (prev_after prev m) t"
      by blast
    show "match_here (NonSepStar # res) prev (c # s)"
    proof (cases m)
      case Nil
      with mt show ?thesis by (simp add: prev_after_Nil)
    next
      case (Cons c' m')
      with mt have "c' = c" "s = m' @ t" "sep \<notin> set m'" "c \<noteq> sep"
          "match_here res (prev_after (Some c) m') t"
        by (auto simp: prev_after_Cons)
      then have "match_here (NonSepStar # res) (Some c) s"
        using Cons.IH [of "Some c"] by blast
      with \<open>c \<noteq> sep\<close> show ?thesis by simp
    qed
  qed
qed

lemma match_here_AnyStar:
  "match_here res (prev_after prev m) t \<Longrightarrow> match_here (AnyStar # res) prev (m @ t)"
proof (induction m arbitrary: prev)
  case Nil
  then show ?case by (cases t) (simp_all add: prev_after_Nil)
next
  case (Cons c m)
  then have "match_here (AnyStar # res) (Some c) (m @ t)"
    by (simp add: prev_after_Cons)
  then show ?case by simp
qed

lemma search_from_iff:
  "search_from res prev s \<longleftrightarrow>
     (\<exists>pre t. s = pre @ t \<and> match_here res (prev_after prev pre) t)"
proof (induction s arbitrary: prev)
  case Nil
  show ?case by (simp add: prev_after_Nil)
next
  case (Cons c s)
  show ?case
  proof
    assume "search_from res prev (c # s)"
    then consider "match_here res prev (c # s)" | "search_from res (Some c) s" by auto
    then show "\<exists>pre t. c # s = pre @ t \<and> match_here res (prev_after prev pre) t"
    proof cases
      case 1
      then have "c # s = [] @ (c # s) \<and> match_here res (prev_after prev []) (c # s)"
        by (simp add: prev_after_Nil)
      then show ?thesis by blast
    next
      case 2
      with Cons [of "Some c"] obtain pre t where
        "s = pre @ t" "match_here res (prev_after (Some c) pre) t"
        by blast
      then have "c # s = (c # pre) @ t \<and> match_here res (prev_after prev (c # pre)) t"
        by (simp add: prev_after_Cons)
      then show ?thesis by blast
    qed
  next
    assume "\<exists>pre t. c # s = pre @ t \<and> match_here res (prev_after prev pre) t"
    then obtain pre t where pt: "c # s = pre @ t" "match_here res (prev_after prev pre) t"
      by blast
    show "search_from res prev (c # s)"
    proof (cases pre)
      case Nil
      with pt(1) have "t = c # s" by simp
      with pt(2) Nil have "match_here res prev (c # s)" by (simp add: prev_after_Nil)
      then show ?thesis by simp
    next
      case (Cons c' pre')
      with pt have "s = pre' @ t" "match_here res (prev_after (Some c) pre') t"
        by (auto simp: prev_after_Cons)
      then have "search_from res (Some c) s" using Cons.IH [of "Some c"] by blast
      then show ?thesis by simp
    qed
  qed
qed

subsection \<open>Paths below the base\<close>

lemma relative_to_joinpath:
  "is_absolute base \<Longrightarrow> relative_to (joinpath base ns) base = Some ns"
  by (simp add: relative_to_def joinpath_def parts_def is_absolute_def)

lemma join_Cons: "ns \<noteq> [] \<Longrightarrow> join d (a # ns) = a @ d @ join d ns"
  by (cases ns) simp_all

lemma join_snoc: "\<exists>pre. join d (ds @ [x]) = pre @ x"
proof (induction ds)
  case Nil
  have "join d ([] @ [x]) = [] @ x" by simp
  then show ?case by blast
next
  case (Cons a ds)
  then obtain pre where "join d (ds @ [x]) = pre @ x" by blast
  then have "join d ((a # ds) @ [x]) = (a @ d @ pre) @ x"
    by (simp add: join_Cons)
  then show ?case by blast
qed

lemma lits_ok: "list_all node_ok (map Lit x)"
  by (induction x) simp_all

lemma match_plain_rule:
  assumes "fs_resolve fs p = Some (joinpath base ns)" "is_absolute base"
      "base_path r = base" "\<not> negation r" "list_all node_ok (regex r)"
      "d = None \<longrightarrow> fs_is_dir fs p \<noteq> None"
  shows "match fs r p d = Inr (search_from (regex r) None (join [sep] ns))"
  using assms
  by (cases d) (auto simp: match_def relative_to_joinpath re_search_def split: option.splits)


subsection \<open>The rules of three families of lines\<close>

lemmas rule_eval0 =
  rule_from_pattern_def assert_absolute_def Let_def py_last_def str_lcut_def str_rcut_def
  endswith_single fnmatch_pathname_to_regex_def invalid_dstar_def

lemmas rule_eval = rule_eval0 startswith_Cons startswith_Nil

lemma rule_dstar_slash:
  assumes "is_absolute base" "plain x" "x \<noteq> []"
  shows "rule_from_pattern (''**/'' @ x) base src =
     Inr (Some \<lparr> pattern = ''**/'' @ x, regex = Flags # map Lit x @ [Eol], negation = False,
                  directory_only = False, anchored = False, base_path = base, source = src \<rparr>)"
proof -
  have lx: "plain_char (last x)" "plain_char (hd x)"
    using assms by (simp_all add: plain_last plain_hd)
  have f1: "strip (''**/'' @ x) \<noteq> []"
    using assms lx plain_charD [of "last x"] by (intro strip_nonspace_last) simp_all
  have f3: "\<not> str_contains (''**/'' @ x) ''***''"
    using contains_plain [OF assms(2), of "[]"] by (simp add: startswith_Cons)
  have f4: "finditer_dstar 0 (''**/'' @ x) = [0]"
    using plain_no_star [OF assms(2)] by (simp add: finditer_no_star)
  have f6: "rstrip (''**/'' @ x) = ''**/'' @ x"
    using assms lx plain_charD [of "last x"] by (intro rstrip_id) simp_all
  have f7: "rstrip x = x"
    using assms lx plain_charD [of "last x"] by (intro rstrip_id) simp_all
  have f8: "glob_scan x = map Lit x"
    using assms by (simp add: glob_scan_plain_only)
  have nb: "\<And>t. x \<noteq> backslash # t"
    using lx plain_charD [of "hd x"] by auto
  show ?thesis
    using assms(1,3) f1 f3 f4 f6 f7 f8 nb plain_charD [of "last x"] lx(1)
    by (simp add: rule_eval)
qed


lemma rule_slash_star:
  assumes "is_absolute base" "plain u" "plain v"
  shows "rule_from_pattern (''/'' @ u @ ''*'' @ v) base src =
     Inr (Some \<lparr> pattern = ''/'' @ u @ ''*'' @ v,
                  regex = Flags # Bol # map Lit u @ NonSepStar # map Lit v @ [Eol],
                  negation = False, directory_only = False, anchored = True,
                  base_path = base, source = src \<rparr>)"
proof -
  define pat where "pat = u @ CHR ''*'' # v"
  have pat_ne: "pat \<noteq> []" by (simp add: pat_def)
  have last_pat: "last pat \<noteq> sep" "last pat \<noteq> backslash" "\<not> is_space (last pat)"
    using plain_last [OF assms(3)] plain_charD [of "last v"]
    by (auto simp: pat_def is_space_def)
  have hd_pat: "hd pat \<noteq> sep" "hd pat \<noteq> backslash"
    using plain_hd [OF assms(2)] plain_charD [of "hd u"]
    by (cases u; simp add: pat_def)+
  have no_dstar: "\<And>t. pat \<noteq> CHR ''*'' # CHR ''*'' # t"
    using assms(2,3) plain_charD [of "hd u"] plain_charD [of "hd v"]
    by (cases u; cases v; auto simp: pat_def plain_Cons)
  have sw: "startswith (sep # pat) ''/''" "\<not> startswith pat ''**''" "\<not> startswith pat ''/''"
      "\<not> startswith pat [backslash, CHR ''#'']"
    using hd_pat no_dstar by (auto simp: startswith_Cons startswith_Nil)
  have f1: "strip (sep # pat) \<noteq> []"
    using pat_ne last_pat by (intro strip_nonspace_last) simp_all
  have f3: "\<not> str_contains (sep # pat) ''***''"
    using contains_plain [OF assms(2), of "CHR ''*'' # v"] contains_plain [OF assms(3), of "[]"]
      assms(3) plain_charD [of "hd v"]
    by (cases v) (auto simp: pat_def startswith_Cons plain_Cons)
  have "finditer_dstar 0 ((sep # u) @ CHR ''*'' # v) = finditer_dstar (0 + length (sep # u)) (CHR ''*'' # v)"
    using plain_no_star [OF assms(2)] by (intro finditer_plain) simp
  moreover have "finditer_dstar k (CHR ''*'' # v) = []" for k
    using plain_no_star [OF assms(3)] assms(3) plain_charD [of "hd v"]
    by (cases v) (auto simp: finditer_no_star plain_Cons)
  ultimately have f4: "finditer_dstar 0 (sep # pat) = []"
    by (simp add: pat_def)
  have f6: "rstrip (sep # pat) = sep # pat" "rstrip pat = pat"
    using pat_ne last_pat by (simp_all add: rstrip_id)
  have f8: "glob_scan pat = map Lit u @ NonSepStar # map Lit v"
    using glob_scan_plain [OF assms(2), of "CHR ''*'' # v"] glob_scan_plain_only [OF assms(3)]
      assms(3) plain_charD [of "hd v"]
    by (cases v) (auto simp: pat_def plain_Cons)
  have line: "''/'' @ u @ ''*'' @ v = sep # pat" by (simp add: pat_def)
  show ?thesis
    unfolding line
    using assms(1) pat_ne last_pat sw f1 f3 f4 f6 f8
    by (simp add: rule_eval0)
qed

lemma rule_slash_dstar:
  assumes "is_absolute base" "plain a" "a \<noteq> []" "hd a \<noteq> CHR ''#''" "hd a \<noteq> CHR ''!''"
  shows "rule_from_pattern (a @ ''/**'') base src =
     Inr (Some \<lparr> pattern = a @ ''/**'',
                  regex = Flags # Bol # map Lit a @ [Sep, AnyStar, NonSepStar, Eol],
                  negation = False, directory_only = False, anchored = True,
                  base_path = base, source = src \<rparr>)"
proof -
  define pat where "pat = a @ ''/**''"
  have pat_ne: "pat \<noteq> []" and last_pat: "last pat = CHR ''*''"
    by (simp_all add: pat_def)
  have hd_pat: "hd pat = hd a" using assms(3) by (simp add: pat_def)
  have hd_a: "hd a \<noteq> sep" "hd a \<noteq> backslash" "hd a \<noteq> CHR ''*''"
    using plain_hd [OF assms(2,3)] plain_charD [of "hd a"] by simp_all
  have hd_pat': "\<And>t. pat \<noteq> sep # t" "\<And>t. pat \<noteq> backslash # t" "\<And>t. pat \<noteq> CHR ''*'' # t"
      "\<And>t. pat \<noteq> CHR ''#'' # t" "\<And>t. pat \<noteq> CHR ''!'' # t"
    using hd_pat hd_a assms(4,5) by auto
  have f1: "strip pat \<noteq> []"
    using pat_ne last_pat by (intro strip_nonspace_last) (simp_all add: is_space_def)
  have f3: "\<not> str_contains pat ''***''"
    using contains_plain [OF assms(2), of "''/**''"] by (simp add: pat_def startswith_Cons)
  have "finditer_dstar 0 (a @ ''/**'') = finditer_dstar (0 + length a) ''/**''"
    using plain_no_star [OF assms(2)] by (rule finditer_plain)
  then have f4: "finditer_dstar 0 pat = [length a + 1]"
    by (simp add: pat_def)
  have len: "length pat = length a + 3" by (simp add: pat_def)
  have f6: "rstrip pat = pat"
    using pat_ne last_pat by (simp add: rstrip_id is_space_def)
  have f8: "glob_scan pat = map Lit a @ [Sep, AnyStar, NonSepStar]"
    using glob_scan_plain [OF assms(2), of "''/**''"] by (simp add: pat_def)
  have anch: "sep \<in> set (butlast pat)"
    by (simp add: pat_def butlast_append)
  show ?thesis
    unfolding pat_def [symmetric]
    using assms(1) pat_ne last_pat hd_pat hd_pat' assms(4,5) f1 f3 f4 len f6 f8 anch
    by (simp add: rule_eval)
qed


subsection \<open>Searching with these rules\<close>

lemma at_bol_prev_after: "at_bol (prev_after None pre) \<longleftrightarrow> pre = [] \<or> last pre = CHR 0x0A"
  by (simp add: at_bol_def prev_after_def)

lemma at_eol_iff: "at_eol post \<longleftrightarrow> post = [] \<or> hd post = CHR 0x0A"
  by (cases post) (simp_all add: at_eol_def)

lemma star_rule_here:
  "match_here (Flags # Bol # map Lit u @ NonSepStar # map Lit v @ [Eol]) q t \<longleftrightarrow>
     at_bol q \<and> (\<exists>m post. t = u @ m @ v @ post \<and> sep \<notin> set m \<and> at_eol post)"
proof -
  have 1: "match_here (Flags # Bol # R) q t = (at_bol q \<and> match_here R q t)" for R
    by simp
  have 2: "match_here [Eol] q' t' = at_eol t'" for q' t'
    by simp
  show ?thesis
    unfolding 1 match_here_lits match_here_NonSepStar 2 by blast
qed

lemma star_rule_search:
  "search_from (Flags # Bol # map Lit u @ NonSepStar # map Lit v @ [Eol]) None rel \<longleftrightarrow>
     (\<exists>pre m post. rel = pre @ u @ m @ v @ post \<and> sep \<notin> set m \<and>
        (pre = [] \<or> last pre = CHR 0x0A) \<and> (post = [] \<or> hd post = CHR 0x0A))"
  unfolding search_from_iff star_rule_here at_bol_prev_after at_eol_iff by blast

lemma name_rule_search:
  "search_from (Flags # map Lit x @ [Eol]) None (pre @ x)"
proof -
  have "match_here (Flags # map Lit x @ [Eol]) (prev_after None pre) x"
    by (simp add: match_here_lits at_eol_def)
  then show ?thesis unfolding search_from_iff by blast
qed

lemma dstar_rule_search:
  "search_from (Flags # Bol # map Lit a @ [Sep, AnyStar, NonSepStar, Eol]) None (a @ sep # rest)"
proof -
  have "match_here [NonSepStar, Eol] (prev_after (Some sep) rest) []"
    by (simp add: at_eol_def)
  then have "match_here [AnyStar, NonSepStar, Eol] (Some sep) (rest @ [])"
    by (rule match_here_AnyStar)
  then have "match_here (Flags # Bol # map Lit a @ [Sep, AnyStar, NonSepStar, Eol]) None
      (a @ sep # rest)"
    by (simp add: match_here_lits at_bol_def)
  then have "match_here (Flags # Bol # map Lit a @ [Sep, AnyStar, NonSepStar, Eol])
      (prev_after None []) (a @ sep # rest)"
    by (simp add: prev_after_Nil)
  then show ?thesis unfolding search_from_iff by (metis append_Nil)
qed

subsection \<open>A single \<^verbatim>\<open>*\<close> in any pattern\<close>

lemma seps_Nil: "seps [] = 0"
  by (simp add: seps_def)

lemma seps_Cons: "seps (c # s) = (if c = sep then Suc (seps s) else seps s)"
  by (simp add: seps_def)

lemma seps_append: "seps (a @ b) = seps a + seps b"
  by (simp add: seps_def)

lemma seps_none: "sep \<notin> set m \<Longrightarrow> seps m = 0"
  by (induction m) (auto simp: seps_def)

lemma str_contains_drop: "str_contains (drop k s) m \<Longrightarrow> str_contains s m"
proof -
  assume "str_contains (drop k s) m"
  then obtain a b where "drop k s = a @ m @ b" unfolding str_contains_iff by blast
  then have "s = (take k s @ a) @ m @ b"
    using append_take_drop_id [of k s] by simp
  then show ?thesis unfolding str_contains_iff by blast
qed

lemma str_contains_Cons: "str_contains s m \<Longrightarrow> str_contains (c # s) m"
  by simp

lemma single_stars_fragments:
  "AnyStar \<in> set (glob_scan s) \<or> OptSep \<in> set (glob_scan s) \<Longrightarrow> str_contains s ''**''"
proof (induction s rule: glob_scan.induct)
  case 1
  then show ?case by simp
next
  case (2 c rest)
  show ?case
  proof (cases "c = CHR ''*''")
    case star: True
    show ?thesis
    proof (cases rest)
      case Nil
      with star "2.prems" show ?thesis by simp
    next
      case (Cons c1 rest1)
      show ?thesis
      proof (cases "c1 = CHR ''*''")
        case True
        with star Cons show ?thesis by (simp add: startswith_Cons startswith_Nil)
      next
        case False
        with star Cons "2.prems" have "AnyStar \<in> set (glob_scan rest) \<or> OptSep \<in> set (glob_scan rest)"
          by simp
        with "2.IH"(3) [OF star Cons False] have "str_contains rest ''**''" .
        then show ?thesis by simp
      qed
    qed
  next
    case nostar: False
    show ?thesis
    proof (cases "c = CHR ''?'' \<or> c = sep")
      case True
      with nostar "2.prems" have p: "AnyStar \<in> set (glob_scan rest) \<or> OptSep \<in> set (glob_scan rest)"
        by auto
      from True nostar "2.IH"(4,5) p have "str_contains rest ''**''" by blast
      then show ?thesis by simp
    next
      case other: False
      show ?thesis
      proof (cases "c = CHR ''[''")
        case br: True
        show ?thesis
        proof (cases "class_end rest \<ge> length rest")
          case True
          with nostar other br "2.prems" have
            p: "AnyStar \<in> set (glob_scan rest) \<or> OptSep \<in> set (glob_scan rest)"
            by (simp add: Let_def)
          from "2.IH"(6) [OF nostar _ _ br refl True] other p have "str_contains rest ''**''"
            by blast
          then show ?thesis by simp
        next
          case False
          with nostar other br "2.prems" have
            p: "AnyStar \<in> set (glob_scan (drop (class_end rest + 1) rest)) \<or>
                OptSep \<in> set (glob_scan (drop (class_end rest + 1) rest))"
            by (simp add: Let_def)
          from "2.IH"(7) [OF nostar _ _ br refl False] other p
          have "str_contains (drop (class_end rest + 1) rest) ''**''"
            by blast
          then have "str_contains rest ''**''" by (rule str_contains_drop)
          then show ?thesis by simp
        qed
      next
        case False
        with nostar other "2.prems" have
          p: "AnyStar \<in> set (glob_scan rest) \<or> OptSep \<in> set (glob_scan rest)"
          by simp
        from "2.IH"(8) nostar other False p have "str_contains rest ''**''" by blast
        then show ?thesis by simp
      qed
    qed
  qed
qed


lemma match_here_one:
  assumes "n \<in> {NonSep, Sep, LitBracket} \<or> (\<exists>x. n = Lit x) \<or> (\<exists>t. n = Class t)"
  shows "match_here (n # res) prev s \<longleftrightarrow>
     (\<exists>c cs. s = c # cs \<and> one_char n c \<and> match_here res (Some c) cs)"
  using assms by (cases s) auto

lemma glob_scan_consumes:
  "\<not> str_contains pat ''**'' \<Longrightarrow> CHR ''['' \<notin> set pat \<Longrightarrow>
   match_here (glob_scan pat @ res) prev s \<Longrightarrow>
   \<exists>m t. s = m @ t \<and> seps m = seps pat \<and> match_here res (prev_after prev m) t"
proof (induction pat arbitrary: prev s)
  case Nil
  then have "s = [] @ s \<and> seps [] = seps [] \<and> match_here res (prev_after prev []) s"
    by (simp add: prev_after_Nil)
  then show ?case by blast
next
  case (Cons c pat)
  from Cons.prems(1) have no2: "\<not> str_contains pat ''**''" by simp
  from Cons.prems(2) have nobr: "CHR ''['' \<notin> set pat" "c \<noteq> CHR ''[''" by auto
  note IH = Cons.IH [OF no2 nobr(1)]
  show ?case
  proof (cases "c = CHR ''*''")
    case True
    have next_no_star: "pat = [] \<or> hd pat \<noteq> CHR ''*''"
      using Cons.prems(1) True by (cases pat) (auto simp: startswith_Cons startswith_Nil)
    have gs: "glob_scan (c # pat) = NonSepStar # glob_scan pat"
      using True next_no_star by (cases pat) auto
    with Cons.prems(3) have "match_here (NonSepStar # glob_scan pat @ res) prev s" by simp
    then obtain m1 t1 where 1: "s = m1 @ t1" "sep \<notin> set m1"
        "match_here (glob_scan pat @ res) (prev_after prev m1) t1"
      unfolding match_here_NonSepStar by blast
    from IH [OF 1(3)] obtain m2 t where 2: "t1 = m2 @ t" "seps m2 = seps pat"
        "match_here res (prev_after (prev_after prev m1) m2) t"
      by blast
    have "s = (m1 @ m2) @ t \<and> seps (m1 @ m2) = seps (c # pat) \<and>
        match_here res (prev_after prev (m1 @ m2)) t"
      using 1 2 True by (simp add: seps_append seps_none seps_Cons prev_after_append)
    then show ?thesis by blast
  next
    case False
    define n where "n = (if c = CHR ''?'' then NonSep else if c = sep then Sep else Lit c)"
    have gs: "glob_scan (c # pat) = n # glob_scan pat"
      using False nobr(2) by (simp add: n_def)
    have kind: "n \<in> {NonSep, Sep, LitBracket} \<or> (\<exists>x. n = Lit x) \<or> (\<exists>t. n = Class t)"
      by (simp add: n_def)
    from Cons.prems(3) gs have "match_here (n # glob_scan pat @ res) prev s" by simp
    then obtain x cs where 1: "s = x # cs" "one_char n x"
        "match_here (glob_scan pat @ res) (Some x) cs"
      unfolding match_here_one [OF kind] by blast
    from IH [OF 1(3)] obtain m2 t where 2: "cs = m2 @ t" "seps m2 = seps pat"
        "match_here res (prev_after (Some x) m2) t"
      by blast
    have sx: "(x = sep) = (c = sep)"
      using 1(2) by (auto simp: n_def split: if_splits)
    have "s = (x # m2) @ t \<and> seps (x # m2) = seps (c # pat) \<and>
        match_here res (prev_after prev (x # m2)) t"
      using 1 2 sx by (simp add: seps_Cons prev_after_Cons)
    then show ?thesis by blast
  qed
qed

lemma glob_scan_append:
  "CHR ''['' \<notin> set pre \<Longrightarrow> pre = [] \<or> last pre \<noteq> CHR ''*'' \<Longrightarrow>
   glob_scan (pre @ s) = glob_scan pre @ glob_scan s"
proof (induction pre rule: glob_scan.induct)
  case 1
  show ?case by simp
next
  case (2 c rest)
  from "2.prems" have nobr: "c \<noteq> CHR ''[''" "CHR ''['' \<notin> set rest" by auto
  show ?case
  proof (cases "c = CHR ''*''")
    case star: True
    with "2.prems" obtain c1 rest1 where rest: "rest = c1 # rest1" by (cases rest) auto
    show ?thesis
    proof (cases "c1 = CHR ''*''")
      case star1: True
      with rest star "2.prems" obtain c2 rest2 where rest1: "rest1 = c2 # rest2"
        by (cases rest1) auto
      show ?thesis
      proof (cases "c2 = sep")
        case True
        have "CHR ''['' \<notin> set rest2" "rest2 = [] \<or> last rest2 \<noteq> CHR ''*''"
          using "2.prems" rest rest1 by (auto split: if_splits)
        with "2.IH"(1) [OF star rest star1 rest1 True]
        have "glob_scan (rest2 @ s) = glob_scan rest2 @ glob_scan s" by blast
        with star rest star1 rest1 True show ?thesis by simp
      next
        case False
        have "CHR ''['' \<notin> set rest1" "rest1 = [] \<or> last rest1 \<noteq> CHR ''*''"
          using "2.prems" rest rest1 by (auto split: if_splits)
        with "2.IH"(2) [OF star rest star1 rest1 False]
        have "glob_scan (rest1 @ s) = glob_scan rest1 @ glob_scan s" by blast
        with star rest star1 rest1 False show ?thesis by simp
      qed
    next
      case False
      have "CHR ''['' \<notin> set rest" "rest = [] \<or> last rest \<noteq> CHR ''*''"
        using "2.prems" rest by (auto split: if_splits)
      with "2.IH"(3) [OF star rest False]
      have "glob_scan (rest @ s) = glob_scan rest @ glob_scan s" by blast
      with star rest False show ?thesis by simp
    qed
  next
    case nostar: False
    have r: "CHR ''['' \<notin> set rest" "rest = [] \<or> last rest \<noteq> CHR ''*''"
      using "2.prems" by (auto split: if_splits)
    have "glob_scan (rest @ s) = glob_scan rest @ glob_scan s"
    proof (cases "c = CHR ''?''")
      case True
      with "2.IH"(4) [OF nostar True] r show ?thesis by blast
    next
      case q: False
      show ?thesis
      proof (cases "c = sep")
        case True
        with "2.IH"(5) [OF nostar q True] r show ?thesis by blast
      next
        case False
        with "2.IH"(8) [OF nostar q False nobr(1)] r show ?thesis by blast
      qed
    qed
    with nostar nobr(1) show ?thesis by simp
  qed
qed

lemma single_star_token:
  assumes "CHR ''['' \<notin> set pre" "pre = [] \<or> last pre \<noteq> CHR ''*''"
      "post = [] \<or> hd post \<noteq> CHR ''*''"
  shows "glob_scan (pre @ CHR ''*'' # post) = glob_scan pre @ NonSepStar # glob_scan post"
proof -
  have "glob_scan (CHR ''*'' # post) = NonSepStar # glob_scan post"
    using assms(3) by (cases post) auto
  with glob_scan_append [OF assms(1,2), of "CHR ''*'' # post"] show ?thesis by simp
qed

lemma single_stars_regex:
  assumes "\<not> str_contains pat ''**''"
  shows "AnyStar \<notin> set (fnmatch_pathname_to_regex pat dir neg anch) \<and>
         OptSep \<notin> set (fnmatch_pathname_to_regex pat dir neg anch)"
  using assms single_stars_fragments [of pat]
  by (auto simp: fnmatch_pathname_to_regex_def Let_def)

lemma single_stars_search:
  assumes "\<not> str_contains pat ''**''" "CHR ''['' \<notin> set pat" "CHR 0x0A \<notin> set rel"
      "search_from (fnmatch_pathname_to_regex pat False neg anch) None rel"
  shows "\<exists>pre m. rel = pre @ m \<and> seps m = seps pat \<and> (anch \<longrightarrow> pre = [])"
proof -
  from assms(4) obtain pre t where pt: "rel = pre @ t"
      "match_here (fnmatch_pathname_to_regex pat False neg anch) (prev_after None pre) t"
    unfolding search_from_iff by blast
  then have bol: "anch \<longrightarrow> at_bol (prev_after None pre)"
    and body: "match_here (glob_scan pat @ [Eol]) (prev_after None pre) t"
    by (auto simp: fnmatch_pathname_to_regex_def Let_def split: if_splits)
  from glob_scan_consumes [OF assms(1,2) body] obtain m t' where
    m: "t = m @ t'" "seps m = seps pat" "match_here [Eol] (prev_after (prev_after None pre) m) t'"
    by blast
  from m(3) have "at_eol t'" by simp
  with assms(3) pt(1) m(1) have "t' = []"
    by (cases t') (auto simp: at_eol_def)
  moreover have "anch \<longrightarrow> pre = []"
  proof (intro impI, rule ccontr)
    assume "anch" "pre \<noteq> []"
    with bol have "last pre = CHR 0x0A" by (simp add: at_bol_prev_after)
    moreover from \<open>pre \<noteq> []\<close> have "last pre \<in> set pre" by (rule last_in_set)
    ultimately show False using assms(3) pt(1) by auto
  qed
  ultimately have "rel = pre @ m \<and> seps m = seps pat \<and> (anch \<longrightarrow> pre = [])"
    using pt(1) m by simp
  then show ?thesis by blast
qed

lemma no_dstar_no_triple: "\<not> str_contains s ''**'' \<Longrightarrow> \<not> str_contains s ''***''"
proof
  assume n: "\<not> str_contains s ''**''" and "str_contains s ''***''"
  then obtain a b where "s = a @ ''***'' @ b" unfolding str_contains_iff by blast
  then have "s = a @ ''**'' @ (''*'' @ b)" by simp
  then have "str_contains s ''**''" unfolding str_contains_iff by blast
  with n show False ..
qed


lemma finditer_no_dstar: "\<not> str_contains s ''**'' \<Longrightarrow> finditer_dstar k s = []"
proof (induction k s rule: finditer_dstar.induct)
  case (1 i c d cs)
  from "1.prems" have ns: "\<not> (c = CHR ''*'' \<and> d = CHR ''*'')" "\<not> str_contains (d # cs) ''**''"
    by (auto simp: startswith_Cons startswith_Nil)
  with "1.IH"(2) have "finditer_dstar (i + 1) (d # cs) = []" by blast
  with ns show ?case by simp
qed simp_all


lemma glob_scan_no_class: "CHR ''['' \<notin> set s \<Longrightarrow> list_all node_ok (glob_scan s)"
proof (induction s rule: glob_scan.induct)
  case 1
  show ?case by simp
next
  case (2 c rest)
  from "2.prems" have nobr: "c \<noteq> CHR ''[''" "CHR ''['' \<notin> set rest" by auto
  show ?case
  proof (cases "c = CHR ''*''")
    case star: True
    show ?thesis
    proof (cases rest)
      case Nil
      with star show ?thesis by simp
    next
      case rest: (Cons c1 rest1)
      show ?thesis
      proof (cases "c1 = CHR ''*''")
        case star1: True
        show ?thesis
        proof (cases rest1)
          case Nil
          with star rest star1 show ?thesis by simp
        next
          case rest1: (Cons c2 rest2)
          show ?thesis
          proof (cases "c2 = sep")
            case True
            have "CHR ''['' \<notin> set rest2" using nobr rest rest1 by simp
            with "2.IH"(1) [OF star rest star1 rest1 True]
            have "list_all node_ok (glob_scan rest2)" by blast
            with star rest star1 rest1 True show ?thesis by simp
          next
            case False
            have "CHR ''['' \<notin> set rest1" using nobr rest by simp
            with "2.IH"(2) [OF star rest star1 rest1 False]
            have "list_all node_ok (glob_scan rest1)" by blast
            with star rest star1 rest1 False show ?thesis by simp
          qed
        qed
      next
        case False
        with "2.IH"(3) [OF star rest False] nobr
        have "list_all node_ok (glob_scan rest)" by blast
        with star rest False show ?thesis by simp
      qed
    qed
  next
    case nostar: False
    have "list_all node_ok (glob_scan rest)"
    proof (cases "c = CHR ''?''")
      case True
      with "2.IH"(4) [OF nostar True] nobr show ?thesis by blast
    next
      case q: False
      show ?thesis
      proof (cases "c = sep")
        case True
        with "2.IH"(5) [OF nostar q True] nobr show ?thesis by blast
      next
        case False
        with "2.IH"(8) [OF nostar q False nobr(1)] nobr show ?thesis by blast
      qed
    qed
    with nostar nobr(1) show ?thesis by simp
  qed
qed

lemma rule_anchored_body:
  assumes "is_absolute base" "b \<noteq> []" "\<not> str_contains b ''**''"
      "hd b \<noteq> sep" "\<not> startswith b [backslash, CHR ''#'']"
      "last b \<noteq> sep" "last b \<noteq> backslash" "\<not> is_space (last b)"
  shows "rule_from_pattern (sep # b) base src =
     Inr (Some \<lparr> pattern = sep # b, regex = fnmatch_pathname_to_regex b False False True,
                  negation = False, directory_only = False, anchored = True,
                  base_path = base, source = src \<rparr>)"
proof -
  obtain c b' where b: "b = c # b'" using assms(2) by (cases b) auto
  have sw: "\<not> startswith b ''**''" "\<not> startswith b ''/''"
    using assms(3,4) b by (auto simp: startswith_Cons startswith_Nil)
  have f1: "strip (sep # b) \<noteq> []"
    using assms(2,8) by (intro strip_nonspace_last) simp_all
  have f3: "\<not> str_contains (sep # b) ''***''"
    using no_dstar_no_triple [OF assms(3)] by (simp add: startswith_Cons)
  have "\<not> str_contains (sep # b) ''**''"
    using assms(3) by (simp add: startswith_Cons)
  then have f4: "finditer_dstar 0 (sep # b) = []" by (rule finditer_no_dstar)
  have f6: "rstrip (sep # b) = sep # b" "rstrip b = b"
    using assms(2,8) by (simp_all add: rstrip_id)
  have anch: "sep \<in> set (butlast (sep # b))"
    using assms(2) by simp
  have hd_line: "hd (sep # b) \<noteq> CHR ''#''" "hd (sep # b) \<noteq> CHR ''!''" by simp_all
  have l: "py_last (sep # b) = Inr (last b)" using assms(2) by (simp add: py_last_def)
  have c1: "str_lcut (sep # b) ''/'' = (b, True)"
    by (simp add: str_lcut_def startswith_Cons startswith_Nil)
  have c2: "str_lcut b ''**'' = (b, False)" using sw by (simp add: str_lcut_def)
  have c3: "str_lcut b ''/'' = (b, False)" using sw by (simp add: str_lcut_def)
  have c4: "str_rcut b ''/'' = (b, False)"
    using assms(2,6) by (simp add: str_rcut_def endswith_single)
  have c5: "str_rcut b [backslash] = (b, False)"
    using assms(2,7) by (simp add: str_rcut_def endswith_single)
  show ?thesis
    unfolding rule_from_pattern_def assert_absolute_def Let_def
    using assms(1,2,5,6) f1 f3 f4 f6 anch hd_line l c1 c2 c3 c4 c5
    by (simp del: butlast.simps hd_Cons_tl list.sel)
qed



lemma single_star_general:
  assumes "is_absolute base"
  shows
    "(\<not> str_contains pat ''**'' \<longrightarrow>
        AnyStar \<notin> set (fnmatch_pathname_to_regex pat dir neg anch) \<and>
        OptSep \<notin> set (fnmatch_pathname_to_regex pat dir neg anch)) \<and>
     (CHR ''['' \<notin> set pre \<and> (pre = [] \<or> last pre \<noteq> CHR ''*'') \<and>
      (post = [] \<or> hd post \<noteq> CHR ''*'') \<longrightarrow>
        glob_scan (pre @ CHR ''*'' # post) = glob_scan pre @ NonSepStar # glob_scan post) \<and>
     (match_here (NonSepStar # res) prev s \<longleftrightarrow>
        (\<exists>m t. s = m @ t \<and> sep \<notin> set m \<and> match_here res (prev_after prev m) t)) \<and>
     (\<not> str_contains pat ''**'' \<and> CHR ''['' \<notin> set pat \<and> CHR 0x0A \<notin> set rel \<and>
      search_from (fnmatch_pathname_to_regex pat False neg anch) None rel \<longrightarrow>
        (\<exists>pre m. rel = pre @ m \<and> seps m = seps pat \<and> (anch \<longrightarrow> pre = []))) \<and>
     (b \<noteq> [] \<and> \<not> str_contains b ''**'' \<and> CHR ''['' \<notin> set b \<and> hd b \<noteq> sep \<and>
      \<not> startswith b [backslash, CHR ''#''] \<and> last b \<noteq> sep \<and> last b \<noteq> backslash \<and>
      \<not> is_space (last b) \<and> fs_resolve fs p = Some (joinpath base ns) \<and>
      (d = None \<longrightarrow> fs_is_dir fs p \<noteq> None) \<and> CHR 0x0A \<notin> set (join ''/'' ns) \<longrightarrow>
        (\<exists>r. rule_from_pattern (sep # b) base src = Inr (Some r) \<and>
           (match fs r p d = Inr True \<longrightarrow> seps (join ''/'' ns) = seps b)))"
proof (intro conjI impI)
  assume "\<not> str_contains pat ''**''"
  then show "AnyStar \<notin> set (fnmatch_pathname_to_regex pat dir neg anch)"
      "OptSep \<notin> set (fnmatch_pathname_to_regex pat dir neg anch)"
    using single_stars_regex by blast+
next
  assume "CHR ''['' \<notin> set pre \<and> (pre = [] \<or> last pre \<noteq> CHR ''*'') \<and>
      (post = [] \<or> hd post \<noteq> CHR ''*'')"
  then show "glob_scan (pre @ CHR ''*'' # post) = glob_scan pre @ NonSepStar # glob_scan post"
    using single_star_token by blast
next
  show "match_here (NonSepStar # res) prev s \<longleftrightarrow>
        (\<exists>m t. s = m @ t \<and> sep \<notin> set m \<and> match_here res (prev_after prev m) t)"
    by (rule match_here_NonSepStar)
next
  assume "\<not> str_contains pat ''**'' \<and> CHR ''['' \<notin> set pat \<and> CHR 0x0A \<notin> set rel \<and>
      search_from (fnmatch_pathname_to_regex pat False neg anch) None rel"
  then show "\<exists>pre m. rel = pre @ m \<and> seps m = seps pat \<and> (anch \<longrightarrow> pre = [])"
    using single_stars_search by blast
next
  assume h: "b \<noteq> [] \<and> \<not> str_contains b ''**'' \<and> CHR ''['' \<notin> set b \<and> hd b \<noteq> sep \<and>
      \<not> startswith b [backslash, CHR ''#''] \<and> last b \<noteq> sep \<and> last b \<noteq> backslash \<and>
      \<not> is_space (last b) \<and> fs_resolve fs p = Some (joinpath base ns) \<and>
      (d = None \<longrightarrow> fs_is_dir fs p \<noteq> None) \<and> CHR 0x0A \<notin> set (join ''/'' ns)"
  let ?r = "\<lparr> pattern = sep # b, regex = fnmatch_pathname_to_regex b False False True,
              negation = False, directory_only = False, anchored = True,
              base_path = base, source = src \<rparr>"
  have r: "rule_from_pattern (sep # b) base src = Inr (Some ?r)"
    using h rule_anchored_body [OF assms, of b src] by blast
  have ok: "list_all node_ok (regex ?r)"
    using h glob_scan_no_class [of b] by (simp add: fnmatch_pathname_to_regex_def Let_def)
  have m: "match fs ?r p d = Inr (search_from (regex ?r) None (join [sep] ns))"
    using h assms ok by (intro match_plain_rule) simp_all
  have "seps (join ''/'' ns) = seps b" if "match fs ?r p d = Inr True"
  proof -
    from that m have "search_from (fnmatch_pathname_to_regex b False False True) None (join [sep] ns)"
      by simp
    with h single_stars_search [of b "join [sep] ns" False True]
    obtain pre m' where "join [sep] ns = pre @ m'" "seps m' = seps b" "pre = []"
      by auto
    then show ?thesis by simp
  qed
  with r show "\<exists>r. rule_from_pattern (sep # b) base src = Inr (Some r) \<and>
           (match fs r p d = Inr True \<longrightarrow> seps (join ''/'' ns) = seps b)"
    by blast
qed

lemma star_families:
  assumes "is_absolute base"
  shows
    "(plain u \<and> plain v \<and> fs_resolve fs p = Some (joinpath base ns) \<and>
      (d = None \<longrightarrow> fs_is_dir fs p \<noteq> None) \<longrightarrow>
        (\<exists>r. rule_from_pattern (''/'' @ u @ ''*'' @ v) base src = Inr (Some r) \<and>
           (match fs r p d = Inr True \<longleftrightarrow>
              (\<exists>pre m post. join ''/'' ns = pre @ u @ m @ v @ post \<and> sep \<notin> set m \<and>
                 (pre = [] \<or> last pre = CHR 0x0A) \<and> (post = [] \<or> hd post = CHR 0x0A))))) \<and>
     (plain x \<and> x \<noteq> [] \<and> fs_resolve fs p = Some (joinpath base (ds @ [x])) \<and>
      (d = None \<longrightarrow> fs_is_dir fs p \<noteq> None) \<longrightarrow>
        (\<exists>r. rule_from_pattern (''**/'' @ x) base src = Inr (Some r) \<and>
           match fs r p d = Inr True)) \<and>
     (plain a \<and> a \<noteq> [] \<and> hd a \<noteq> CHR ''#'' \<and> hd a \<noteq> CHR ''!'' \<and> ns \<noteq> [] \<and>
      fs_resolve fs p = Some (joinpath base (a # ns)) \<and>
      (d = None \<longrightarrow> fs_is_dir fs p \<noteq> None) \<longrightarrow>
        (\<exists>r. rule_from_pattern (a @ ''/**'') base src = Inr (Some r) \<and>
           match fs r p d = Inr True))"
proof (intro conjI impI)
  assume h: "plain u \<and> plain v \<and> fs_resolve fs p = Some (joinpath base ns) \<and>
      (d = None \<longrightarrow> fs_is_dir fs p \<noteq> None)"
  let ?r = "\<lparr> pattern = ''/'' @ u @ ''*'' @ v,
              regex = Flags # Bol # map Lit u @ NonSepStar # map Lit v @ [Eol],
              negation = False, directory_only = False, anchored = True,
              base_path = base, source = src \<rparr>"
  have r: "rule_from_pattern (''/'' @ u @ ''*'' @ v) base src = Inr (Some ?r)"
    using h rule_slash_star [OF assms, of u v src] by blast
  have "match fs ?r p d = Inr (search_from (regex ?r) None (join [sep] ns))"
    using h assms by (intro match_plain_rule) (simp_all add: lits_ok)
  then have "match fs ?r p d = Inr True \<longleftrightarrow>
      (\<exists>pre m post. join ''/'' ns = pre @ u @ m @ v @ post \<and> sep \<notin> set m \<and>
         (pre = [] \<or> last pre = CHR 0x0A) \<and> (post = [] \<or> hd post = CHR 0x0A))"
    by (simp add: star_rule_search)
  with r show "\<exists>r. rule_from_pattern (''/'' @ u @ ''*'' @ v) base src = Inr (Some r) \<and>
           (match fs r p d = Inr True \<longleftrightarrow>
              (\<exists>pre m post. join ''/'' ns = pre @ u @ m @ v @ post \<and> sep \<notin> set m \<and>
                 (pre = [] \<or> last pre = CHR 0x0A) \<and> (post = [] \<or> hd post = CHR 0x0A)))"
    by blast
next
  assume h: "plain x \<and> x \<noteq> [] \<and> fs_resolve fs p = Some (joinpath base (ds @ [x])) \<and>
      (d = None \<longrightarrow> fs_is_dir fs p \<noteq> None)"
  let ?r = "\<lparr> pattern = ''**/'' @ x, regex = Flags # map Lit x @ [Eol], negation = False,
              directory_only = False, anchored = False, base_path = base, source = src \<rparr>"
  have r: "rule_from_pattern (''**/'' @ x) base src = Inr (Some ?r)"
    using h rule_dstar_slash [OF assms, of x src] by blast
  obtain pre where pre: "join [sep] (ds @ [x]) = pre @ x"
    using join_snoc by blast
  have "match fs ?r p d = Inr (search_from (regex ?r) None (join [sep] (ds @ [x])))"
    using h assms by (intro match_plain_rule) (simp_all add: lits_ok)
  then have "match fs ?r p d = Inr True"
    unfolding pre by (simp add: name_rule_search)
  with r show "\<exists>r. rule_from_pattern (''**/'' @ x) base src = Inr (Some r) \<and>
      match fs r p d = Inr True"
    by blast
next
  assume h: "plain a \<and> a \<noteq> [] \<and> hd a \<noteq> CHR ''#'' \<and> hd a \<noteq> CHR ''!'' \<and> ns \<noteq> [] \<and>
      fs_resolve fs p = Some (joinpath base (a # ns)) \<and>
      (d = None \<longrightarrow> fs_is_dir fs p \<noteq> None)"
  let ?r = "\<lparr> pattern = a @ ''/**'',
              regex = Flags # Bol # map Lit a @ [Sep, AnyStar, NonSepStar, Eol],
              negation = False, directory_only = False, anchored = True,
              base_path = base, source = src \<rparr>"
  have r: "rule_from_pattern (a @ ''/**'') base src = Inr (Some ?r)"
    using h rule_slash_dstar [OF assms, of a src] by blast
  have j: "join [sep] (a # ns) = a @ sep # join [sep] ns"
    using h by (simp add: join_Cons)
  have "match fs ?r p d = Inr (search_from (regex ?r) None (join [sep] (a # ns)))"
    using h assms by (intro match_plain_rule) (simp_all add: lits_ok)
  then have "match fs ?r p d = Inr True"
    unfolding j by (simp add: dstar_rule_search)
  with r show "\<exists>r. rule_from_pattern (a @ ''/**'') base src = Inr (Some r) \<and>
      match fs r p d = Inr True"
    by blast
qed



text \<open>
  C4. A single \<^verbatim>\<open>*\<close> never matches across a separator, in every pattern:

  \<^item> a pattern without \<^verbatim>\<open>**\<close> is translated, whatever the flags, to an expression that
    holds neither \<^verbatim>\<open>.*\<close> nor the optional separator;
  \<^item> a \<^verbatim>\<open>*\<close> that the scan reaches, with no \<^verbatim>\<open>*\<close> before or after it, is translated
    to \<^verbatim>\<open>[^/]*\<close> between the translations of the text before and after it;
  \<^item> whatever \<^verbatim>\<open>[^/]*\<close> consumes holds no separator;
  \<^item> for a pattern without \<^verbatim>\<open>**\<close> and without a character class, what the translated
    expression matches in a relative path without newline has exactly as many separators
    as the pattern has \<^verbatim>\<open>/\<close> (and is the whole path when the pattern is anchored);
  \<^item> so the rule compiled from a line \<^verbatim>\<open>/b\<close>, for such a pattern \<open>b\<close>, matches only
    relative paths with as many separators as \<open>b\<close> has \<^verbatim>\<open>/\<close>;
  \<^item> the rule of \<^verbatim>\<open>/u*v\<close>, for plain \<open>u\<close> and \<open>v\<close>, matches exactly when the relative
    path holds \<open>u\<close>, a text without separator, and \<open>v\<close>, from the start of a line to the
    end of a line.

  The rule of \<^verbatim>\<open>**/x\<close>, for a plain name \<open>x\<close>, matches \<open>x\<close> below any directories
  \<open>ds\<close>, also none. The rule of \<^verbatim>\<open>a/**\<close>, for a plain name \<open>a\<close>, matches every path
  \<open>a/ns\<close> with at least one name below \<open>a\<close>.

  Every line is compiled against an absolute base path; the candidate resolves to a path
  below it whose relative path is the names \<open>ns\<close> joined by \<^verbatim>\<open>/\<close>, and either the
  directory hint is given or \<^verbatim>\<open>is_dir()\<close> answers for the candidate.
\<close>

theorem star_and_double_star:
  assumes "is_absolute base"
  shows
    "((\<not> str_contains pat ''**'' \<longrightarrow>
        AnyStar \<notin> set (fnmatch_pathname_to_regex pat dir neg anch) \<and>
        OptSep \<notin> set (fnmatch_pathname_to_regex pat dir neg anch)) \<and>
     (CHR ''['' \<notin> set pre \<and> (pre = [] \<or> last pre \<noteq> CHR ''*'') \<and>
      (post = [] \<or> hd post \<noteq> CHR ''*'') \<longrightarrow>
        glob_scan (pre @ CHR ''*'' # post) = glob_scan pre @ NonSepStar # glob_scan post) \<and>
     (match_here (NonSepStar # res) prev s \<longleftrightarrow>
        (\<exists>m t. s = m @ t \<and> sep \<notin> set m \<and> match_here res (prev_after prev m) t)) \<and>
     (\<not> str_contains pat ''**'' \<and> CHR ''['' \<notin> set pat \<and> CHR 0x0A \<notin> set rel \<and>
      search_from (fnmatch_pathname_to_regex pat False neg anch) None rel \<longrightarrow>
        (\<exists>pre m. rel = pre @ m \<and> seps m = seps pat \<and> (anch \<longrightarrow> pre = []))) \<and>
     (b \<noteq> [] \<and> \<not> str_contains b ''**'' \<and> CHR ''['' \<notin> set b \<and> hd b \<noteq> sep \<and>
      \<not> startswith b [backslash, CHR ''#''] \<and> last b \<noteq> sep \<and> last b \<noteq> backslash \<and>
      \<not> is_space (last b) \<and> fs_resolve fs p = Some (joinpath base ns) \<and>
      (d = None \<longrightarrow> fs_is_dir fs p \<noteq> None) \<and> CHR 0x0A \<notin> set (join ''/'' ns) \<longrightarrow>
        (\<exists>r. rule_from_pattern (sep # b) base src = Inr (Some r) \<and>
           (match fs r p d = Inr True \<longrightarrow> seps (join ''/'' ns) = seps b)))) \<and>
     (plain u \<and> plain v \<and> fs_resolve fs p = Some (joinpath base ns) \<and>
      (d = None \<longrightarrow> fs_is_dir fs p \<noteq> None) \<longrightarrow>
        (\<exists>r. rule_from_pattern (''/'' @ u @ ''*'' @ v) base src = Inr (Some r) \<and>
           (match fs r p d = Inr True \<longleftrightarrow>
              (\<exists>pre m post. join ''/'' ns = pre @ u @ m @ v @ post \<and> sep \<notin> set m \<and>
                 (pre = [] \<or> last pre = CHR 0x0A) \<and> (post = [] \<or> hd post = CHR 0x0A))))) \<and>
     (plain x \<and> x \<noteq> [] \<and> fs_resolve fs p = Some (joinpath base (ds @ [x])) \<and>
      (d = None \<longrightarrow> fs_is_dir fs p \<noteq> None) \<longrightarrow>
        (\<exists>r. rule_from_pattern (''**/'' @ x) base src = Inr (Some r) \<and>
           match fs r p d = Inr True)) \<and>
     (plain a \<and> a \<noteq> [] \<and> hd a \<noteq> CHR ''#'' \<and> hd a \<noteq> CHR ''!'' \<and> ns \<noteq> [] \<and>
      fs_resolve fs p = Some (joinpath base (a # ns)) \<and>
      (d = None \<longrightarrow> fs_is_dir fs p \<noteq> None) \<longrightarrow>
        (\<exists>r. rule_from_pattern (a @ ''/**'') base src = Inr (Some r) \<and>
           match fs r p d = Inr True))"
  by (rule conjI [OF single_star_general [OF assms] star_families [OF assms]])

theorem star_and_double_star_witness:
  "is_absolute repo \<and> plain ''u'' \<and> plain ''v'' \<and> plain ''x'' \<and> plain ''a'' \<and>
   \<not> str_contains ''a*/b'' ''**'' \<and>
   AnyStar \<notin> set (fnmatch_pathname_to_regex ''a*/b'' False False True) \<and>
   OptSep \<notin> set (fnmatch_pathname_to_regex ''a*/b'' False False True) \<and>
   glob_scan (''a'' @ CHR ''*'' # ''/b'') = glob_scan ''a'' @ NonSepStar # glob_scan ''/b'' \<and>
   search_from (fnmatch_pathname_to_regex ''*.c'' False False False) None ''src/main.c'' \<and>
   (\<exists>pre m. ''src/main.c'' = pre @ m \<and> seps m = seps ''*.c'') \<and>
   (\<exists>r. rule_from_pattern ''/a*/b'' repo (gitignore_file, 1) = Inr (Some r) \<and>
        match files_fs r (joinpath repo [''ax'', ''y'', ''b'']) None \<noteq> Inr True) \<and>
   (\<exists>r. rule_from_pattern ''/u*v'' repo (gitignore_file, 1) = Inr (Some r) \<and>
        match files_fs r (joinpath repo [''uxyv'']) None = Inr True) \<and>
   (\<exists>r. rule_from_pattern ''**/x'' repo (gitignore_file, 1) = Inr (Some r) \<and>
        match files_fs r (joinpath repo [''x'']) None = Inr True) \<and>
   (\<exists>r. rule_from_pattern ''**/x'' repo (gitignore_file, 1) = Inr (Some r) \<and>
        match files_fs r (joinpath repo [''d1'', ''d2'', ''x'']) None = Inr True) \<and>
   (\<exists>r. rule_from_pattern ''a/**'' repo (gitignore_file, 1) = Inr (Some r) \<and>
        match files_fs r (joinpath repo [''a'', ''b'', ''c'']) None = Inr True)"
proof -
  have a: "is_absolute repo" by code_simp
  have pl: "plain ''u''" "plain ''v''" "plain ''x''" "plain ''a''" by code_simp+
  have res: "fs_resolve files_fs q = Some q" "fs_is_dir files_fs q \<noteq> None" for q
    by (simp_all add: files_fs_def)
  note T = star_and_double_star [OF a]
  have n1: "\<not> str_contains ''a*/b'' ''**''" by code_simp
  have g1: "AnyStar \<notin> set (fnmatch_pathname_to_regex ''a*/b'' False False True) \<and>
      OptSep \<notin> set (fnmatch_pathname_to_regex ''a*/b'' False False True)"
    by (rule T [where pat = "''a*/b''" and dir = False and neg = False and anch = True,
          THEN conjunct1, THEN conjunct1, THEN mp, OF n1])
  have h2: "CHR ''['' \<notin> set ''a'' \<and> (''a'' = [] \<or> last ''a'' \<noteq> CHR ''*'') \<and>
      (''/b'' = [] \<or> hd ''/b'' \<noteq> CHR ''*'')"
    by simp
  have g2: "glob_scan (''a'' @ CHR ''*'' # ''/b'') = glob_scan ''a'' @ NonSepStar # glob_scan ''/b''"
    by (rule T [where pre = "''a''" and post = "''/b''",
          THEN conjunct1, THEN conjunct2, THEN conjunct1, THEN mp, OF h2])
  have s4: "search_from (fnmatch_pathname_to_regex ''*.c'' False False False) None ''src/main.c''"
    by code_simp
  have h4: "\<not> str_contains ''*.c'' ''**'' \<and> CHR ''['' \<notin> set ''*.c'' \<and>
      CHR 0x0A \<notin> set ''src/main.c'' \<and>
      search_from (fnmatch_pathname_to_regex ''*.c'' False False False) None ''src/main.c''"
    using s4 by (simp add: startswith_Cons startswith_Nil)
  have g4: "\<exists>pre m. ''src/main.c'' = pre @ m \<and> seps m = seps ''*.c''"
    using T [where pat = "''*.c''" and rel = "''src/main.c''" and neg = False and anch = False,
          THEN conjunct1, THEN conjunct2, THEN conjunct2, THEN conjunct2, THEN conjunct1,
          THEN mp, OF h4]
    by blast
  have h5: "''a*/b'' \<noteq> [] \<and> \<not> str_contains ''a*/b'' ''**'' \<and> CHR ''['' \<notin> set ''a*/b'' \<and>
      hd ''a*/b'' \<noteq> sep \<and> \<not> startswith ''a*/b'' [backslash, CHR ''#''] \<and>
      last ''a*/b'' \<noteq> sep \<and> last ''a*/b'' \<noteq> backslash \<and> \<not> is_space (last ''a*/b'') \<and>
      fs_resolve files_fs (joinpath repo [''ax'', ''y'', ''b'']) =
        Some (joinpath repo [''ax'', ''y'', ''b'']) \<and>
      ((None :: bool option) = None \<longrightarrow>
         fs_is_dir files_fs (joinpath repo [''ax'', ''y'', ''b'']) \<noteq> None) \<and>
      CHR 0x0A \<notin> set (join ''/'' [''ax'', ''y'', ''b''])"
    using n1 res by (simp add: startswith_Cons is_space_def)
  have c5: "seps (join ''/'' [''ax'', ''y'', ''b'']) \<noteq> seps ''a*/b''" by code_simp
  have g5: "\<exists>r. rule_from_pattern ''/a*/b'' repo (gitignore_file, 1) = Inr (Some r) \<and>
        match files_fs r (joinpath repo [''ax'', ''y'', ''b'']) None \<noteq> Inr True"
    using T [where b = "''a*/b''" and fs = files_fs and p = "joinpath repo [''ax'', ''y'', ''b'']"
          and ns = "[''ax'', ''y'', ''b'']" and d = None and src = "(gitignore_file, 1)",
          THEN conjunct1, THEN conjunct2, THEN conjunct2, THEN conjunct2, THEN conjunct2,
          THEN mp, OF h5] c5
    by auto
  have m: "\<exists>pre m post. join ''/'' [''uxyv''] = pre @ ''u'' @ m @ ''v'' @ post \<and> sep \<notin> set m \<and>
      (pre = [] \<or> last pre = CHR 0x0A) \<and> (post = [] \<or> hd post = CHR 0x0A)"
    by (rule exI [of _ "[]"], rule exI [of _ "''xy''"], rule exI [of _ "[]"]) simp
  have f1: "\<exists>r. rule_from_pattern ''/u*v'' repo (gitignore_file, 1) = Inr (Some r) \<and>
        match files_fs r (joinpath repo [''uxyv'']) None = Inr True"
    using T [where u = "''u''" and v = "''v''" and fs = files_fs
        and p = "joinpath repo [''uxyv'']" and ns = "[''uxyv'']" and src = "(gitignore_file, 1)"
        and d = None, THEN conjunct2, THEN conjunct1]
      pl res m
    by auto
  have f2: "\<exists>r. rule_from_pattern ''**/x'' repo (gitignore_file, 1) = Inr (Some r) \<and>
        match files_fs r (joinpath repo [''x'']) None = Inr True"
    using T [where x = "''x''" and fs = files_fs
        and p = "joinpath repo [''x'']" and ds = "[]" and src = "(gitignore_file, 1)"
        and d = None, THEN conjunct2, THEN conjunct2, THEN conjunct1]
      pl res
    by auto
  have f2': "\<exists>r. rule_from_pattern ''**/x'' repo (gitignore_file, 1) = Inr (Some r) \<and>
        match files_fs r (joinpath repo [''d1'', ''d2'', ''x'']) None = Inr True"
    using T [where x = "''x''" and fs = files_fs
        and p = "joinpath repo [''d1'', ''d2'', ''x'']" and ds = "[''d1'', ''d2'']"
        and src = "(gitignore_file, 1)" and d = None, THEN conjunct2, THEN conjunct2,
        THEN conjunct1]
      pl res
    by auto
  have f3: "\<exists>r. rule_from_pattern ''a/**'' repo (gitignore_file, 1) = Inr (Some r) \<and>
        match files_fs r (joinpath repo [''a'', ''b'', ''c'']) None = Inr True"
    using T [where a = "''a''" and fs = files_fs
        and p = "joinpath repo [''a'', ''b'', ''c'']" and ns = "[''b'', ''c'']"
        and src = "(gitignore_file, 1)" and d = None, THEN conjunct2, THEN conjunct2,
        THEN conjunct2]
      pl res
    by auto
  from a pl n1 g1 g2 s4 g4 g5 f1 f2 f2' f3 show ?thesis by blast
qed

end
